theory Spec2Isabelle
  imports Complex_Main "HOL-Library.Log_Nat" "HOL-Library.Multiset"
begin

section \<open>JavaScript numbers\<close>

text \<open>
  A JavaScript Number is an IEEE-754 binary64 value. The model keeps the three special
  values apart and stores a finite value as the rational it denotes. The two zeros are
  one value here: the program never divides by a zero and \<open>===\<close> does not tell them
  apart. Every arithmetic operation computes the exact rational result and rounds it to
  the nearest binary64 value, ties to even (\<open>rd\<close>), as the hardware does.
\<close>

datatype jsnum = NaN | PInf | NInf | Fin rat

text \<open>\<open>ilog2 q\<close> is the binary exponent of a non-zero \<open>q\<close>: \<open>2^e \<le> |q| < 2^(e+1)\<close>.\<close>

definition ilog2 :: "rat \<Rightarrow> int" where
  "ilog2 q = (if 1 \<le> \<bar>q\<bar> then bitlen \<lfloor>\<bar>q\<bar>\<rfloor> - 1 else - bitlen (\<lceil>1 / \<bar>q\<bar>\<rceil> - 1))"

text \<open>Rounding to the nearest integer, a tie going to the even neighbour.\<close>

definition rne :: "rat \<Rightarrow> int" where
  "rne x = (let f = \<lfloor>x\<rfloor>; r = x - of_int f in
     if r < 1 / 2 then f else if 1 / 2 < r then f + 1 else if even f then f else f + 1)"

text \<open>
  Rounding to binary64: 53 significant bits, the exponent not below \<open>-1022\<close> (below it
  the values are subnormal, spaced \<open>2^-1074\<close> apart), overflow to an infinity once the
  rounded magnitude reaches \<open>2^1024\<close>.
\<close>

definition rd :: "rat \<Rightarrow> jsnum" where
  "rd q = (let e = max (ilog2 q) (- 1022); u = 2 powi (e - 52); v = of_int (rne (q / u)) * u
     in if 2 powi 1024 \<le> v then PInf else if v \<le> - (2 powi 1024) then NInf else Fin v)"

text \<open>A decimal literal of the source denotes the nearest binary64 value.\<close>

definition lit :: "rat \<Rightarrow> jsnum" where
  "lit q = rd q"

fun js_add :: "jsnum \<Rightarrow> jsnum \<Rightarrow> jsnum" where
  "js_add NaN y = NaN"
| "js_add x NaN = NaN"
| "js_add PInf NInf = NaN"
| "js_add NInf PInf = NaN"
| "js_add PInf y = PInf"
| "js_add NInf y = NInf"
| "js_add (Fin a) PInf = PInf"
| "js_add (Fin a) NInf = NInf"
| "js_add (Fin a) (Fin b) = rd (a + b)"

fun js_sub :: "jsnum \<Rightarrow> jsnum \<Rightarrow> jsnum" where
  "js_sub NaN y = NaN"
| "js_sub x NaN = NaN"
| "js_sub PInf PInf = NaN"
| "js_sub NInf NInf = NaN"
| "js_sub PInf y = PInf"
| "js_sub NInf y = NInf"
| "js_sub (Fin a) PInf = NInf"
| "js_sub (Fin a) NInf = PInf"
| "js_sub (Fin a) (Fin b) = rd (a - b)"

fun js_mul :: "jsnum \<Rightarrow> jsnum \<Rightarrow> jsnum" where
  "js_mul NaN y = NaN"
| "js_mul x NaN = NaN"
| "js_mul PInf PInf = PInf"
| "js_mul PInf NInf = NInf"
| "js_mul NInf PInf = NInf"
| "js_mul NInf NInf = PInf"
| "js_mul PInf (Fin b) = (if b = 0 then NaN else if 0 < b then PInf else NInf)"
| "js_mul NInf (Fin b) = (if b = 0 then NaN else if 0 < b then NInf else PInf)"
| "js_mul (Fin a) PInf = (if a = 0 then NaN else if 0 < a then PInf else NInf)"
| "js_mul (Fin a) NInf = (if a = 0 then NaN else if 0 < a then NInf else PInf)"
| "js_mul (Fin a) (Fin b) = rd (a * b)"

text \<open>
  Division. A finite value over an infinity is zero; a zero divisor (taken as \<open>+0\<close>)
  gives \<open>NaN\<close> for \<open>0 / 0\<close> and an infinity otherwise.
\<close>

fun js_div :: "jsnum \<Rightarrow> jsnum \<Rightarrow> jsnum" where
  "js_div NaN y = NaN"
| "js_div x NaN = NaN"
| "js_div PInf PInf = NaN"
| "js_div PInf NInf = NaN"
| "js_div NInf PInf = NaN"
| "js_div NInf NInf = NaN"
| "js_div PInf (Fin b) = (if 0 \<le> b then PInf else NInf)"
| "js_div NInf (Fin b) = (if 0 \<le> b then NInf else PInf)"
| "js_div (Fin a) PInf = Fin 0"
| "js_div (Fin a) NInf = Fin 0"
| "js_div (Fin a) (Fin b) =
     (if b = 0 then (if a = 0 then NaN else if 0 < a then PInf else NInf) else rd (a / b))"

text \<open>The comparison \<open>x < y\<close>: false as soon as an operand is \<open>NaN\<close>.\<close>

fun js_lt :: "jsnum \<Rightarrow> jsnum \<Rightarrow> bool" where
  "js_lt NaN y = False"
| "js_lt x NaN = False"
| "js_lt x NInf = False"
| "js_lt PInf y = False"
| "js_lt NInf y = True"
| "js_lt (Fin a) PInf = True"
| "js_lt (Fin a) (Fin b) = (a < b)"

definition js_gt :: "jsnum \<Rightarrow> jsnum \<Rightarrow> bool" where
  "js_gt x y = js_lt y x"

text \<open>The comparison \<open>x <= y\<close>.\<close>

definition js_le :: "jsnum \<Rightarrow> jsnum \<Rightarrow> bool" where
  "js_le x y = (x \<noteq> NaN \<and> y \<noteq> NaN \<and> \<not> js_lt y x)"

definition Number_isNaN :: "jsnum \<Rightarrow> bool" where
  "Number_isNaN x = (x = NaN)"

definition Number_EPSILON :: jsnum where
  "Number_EPSILON = Fin (1 / 2 ^ 52)"

text \<open>
  \<open>Math.round\<close>: the nearest integer, a tie going towards \<open>+\<infinity>\<close>. The result of
  \<open>\<lfloor>x + 1/2\<rfloor>\<close> is exact: a binary64 value of magnitude \<open>2^52\<close> or more is an integer
  already, and a smaller one rounds to an integer of at most 53 bits.
\<close>

fun Math_round :: "jsnum \<Rightarrow> jsnum" where
  "Math_round (Fin q) = Fin (of_int \<lfloor>q + 1 / 2\<rfloor>)"
| "Math_round x = x"

text \<open>
  \<open>Math.pow(10, decimals)\<close> for a natural number of decimals; the program passes 2 and 4,
  where the power is exact.
\<close>

definition Math_pow10 :: "nat \<Rightarrow> jsnum" where
  "Math_pow10 decimals = rd (10 ^ decimals)"

section \<open>Strings, values and the configuration (config.js)\<close>

text \<open>
  A JavaScript string is its sequence of UTF-16 code units. \<open>str\<close> reads an Isabelle
  string, one code unit per character (the characters up to U+00FF).
\<close>

type_synonym jsstring = "nat list"

definition str :: "string \<Rightarrow> jsstring" where
  "str s = map of_char s"

text \<open>
  What a property read \<open>obj[key]\<close> can give on the factor table: a number of the table,
  \<open>undefined\<close>, \<open>null\<close>, or a function or object.
\<close>

datatype jsval = JUndefined | JNull | JNumber jsnum | JObject

text \<open>\<open>Number(v)\<close>: a function or a plain object converts to \<open>NaN\<close>.\<close>

fun Number :: "jsval \<Rightarrow> jsnum" where
  "Number JUndefined = NaN"
| "Number JNull = Fin 0"
| "Number (JNumber n) = n"
| "Number JObject = NaN"

text \<open>
  The factor table is an object literal: its own properties in insertion order (each key
  once, none of them an array index, so that \<open>Object.keys\<close> returns them in this order),
  and behind them the properties every object inherits from \<open>Object.prototype\<close>, which a
  read \<open>obj[key]\<close> also finds. The inherited ones are functions, and \<open>__proto__\<close> is the
  prototype object itself.
\<close>

definition Object_prototype_names :: "jsstring list" where
  "Object_prototype_names = map str
     [''constructor'', ''hasOwnProperty'', ''isPrototypeOf'', ''propertyIsEnumerable'',
      ''toLocaleString'', ''toString'', ''valueOf'', ''__proto__'',
      ''__defineGetter__'', ''__defineSetter__'', ''__lookupGetter__'', ''__lookupSetter__'']"

definition get_prop :: "(jsstring \<times> jsnum) list \<Rightarrow> jsstring \<Rightarrow> jsval" where
  "get_prop obj key =
     (case map_of obj key of
        Some v \<Rightarrow> JNumber v
      | None \<Rightarrow> if key \<in> set Object_prototype_names then JObject else JUndefined)"

definition Object_keys :: "(jsstring \<times> jsnum) list \<Rightarrow> jsstring list" where
  "Object_keys obj = map fst obj"

record carbon_credit =
  KG_PER_CREDIT :: jsnum
  PRICE_MIN_BRL :: jsnum
  PRICE_MAX_BRL :: jsnum

text \<open>
  The global \<open>CONFIG\<close> is passed to every function of the calculator. A field is
  \<open>None\<close> when the property is missing, which the calculator tests first.
\<close>

record config =
  EMISSION_FACTORS :: "(jsstring \<times> jsnum) list option"
  CARBON_CREDIT :: "carbon_credit option"

definition EMISSION_FACTORS_table :: "(jsstring \<times> jsnum) list" where
  "EMISSION_FACTORS_table =
     [(str ''bicycle'', Fin 0), (str ''car'', lit 0.12),
      (str ''bus'', lit 0.089), (str ''boat'', lit 0.96)]"

definition CARBON_CREDIT_policy :: carbon_credit where
  "CARBON_CREDIT_policy =
     \<lparr>KG_PER_CREDIT = Fin 1000, PRICE_MIN_BRL = Fin 50, PRICE_MAX_BRL = Fin 150\<rparr>"

definition CONFIG :: config where
  "CONFIG = \<lparr>EMISSION_FACTORS = Some EMISSION_FACTORS_table,
             CARBON_CREDIT = Some CARBON_CREDIT_policy\<rparr>"

section \<open>The calculator (calculator.js)\<close>

text \<open>\<open>_round(value, decimals)\<close>.\<close>

definition round' :: "jsnum \<Rightarrow> nat \<Rightarrow> jsnum" where
  "round' v decimals =
     (let factor = Math_pow10 decimals
      in js_div (Math_round (js_mul (js_add v Number_EPSILON) factor)) factor)"

text \<open>\<open>calculateEmission\<close>; \<open>None\<close> is the \<open>null\<close> result.\<close>

definition calculateEmission :: "config \<Rightarrow> jsnum \<Rightarrow> jsstring \<Rightarrow> jsnum option" where
  "calculateEmission cfg distanceKm transportMode =
     (case EMISSION_FACTORS cfg of
        None \<Rightarrow> None
      | Some factors \<Rightarrow>
          let distance = distanceKm in
          if Number_isNaN distance \<or> js_lt distance (Fin 0) then None
          else
            let factor = get_prop factors transportMode in
            if factor = JUndefined \<or> factor = JNull then None
            else
              let emission = js_mul distance (Number factor)
              in Some (round' emission 2))"

text \<open>\<open>calculateSavings\<close>.\<close>

record savings =
  savedKg :: jsnum
  percentage :: "jsnum option"

definition calculateSavings :: "jsnum \<Rightarrow> jsnum \<Rightarrow> savings option" where
  "calculateSavings emission baselineEmission =
     (let e = emission; b = baselineEmission in
      if Number_isNaN e \<or> Number_isNaN b then None
      else
        let savedKg = round' (js_sub b e) 2;
            percentage = (if js_gt b (Fin 0)
                          then Some (round' (js_mul (js_div savedKg b) (Fin 100)) 2)
                          else None)
        in Some \<lparr>savedKg = savedKg, percentage = percentage\<rparr>)"

text \<open>\<open>calculateCarbonCredits\<close>.\<close>

definition calculateCarbonCredits :: "config \<Rightarrow> jsnum \<Rightarrow> jsnum option" where
  "calculateCarbonCredits cfg emissionKg =
     (case CARBON_CREDIT cfg of
        None \<Rightarrow> None
      | Some policy \<Rightarrow>
          let kg = emissionKg in
          if Number_isNaN kg \<or> js_lt kg (Fin 0) then None
          else
            let credits = js_div kg (KG_PER_CREDIT policy)
            in Some (round' credits 4))"

text \<open>\<open>estimateCreditPrice\<close>.\<close>

record price_estimate =
  min_price :: jsnum
  max_price :: jsnum
  average :: jsnum

definition estimateCreditPrice :: "config \<Rightarrow> jsnum \<Rightarrow> price_estimate option" where
  "estimateCreditPrice cfg credits =
     (case CARBON_CREDIT cfg of
        None \<Rightarrow> None
      | Some policy \<Rightarrow>
          let c = credits in
          if Number_isNaN c \<or> js_lt c (Fin 0) then None
          else
            let mn = js_mul c (PRICE_MIN_BRL policy);
                mx = js_mul c (PRICE_MAX_BRL policy);
                avg = js_div (js_add mn mx) (Fin 2)
            in Some \<lparr>min_price = round' mn 2, max_price = round' mx 2,
                      average = round' avg 2\<rparr>)"

text \<open>
  \<open>calculateAllModes\<close>. An entry of the result is \<open>{ mode, emission, percentageVsCar }\<close>.
\<close>

record entry =
  mode :: jsstring
  emission :: "jsnum option"
  percentageVsCar :: "jsnum option"

text \<open>The comparator handed to \<open>sort\<close>; it returns a number.\<close>

definition compare_emission :: "entry \<Rightarrow> entry \<Rightarrow> jsnum" where
  "compare_emission a b =
     (if emission a = None \<and> emission b = None then Fin 0
      else if emission a = None then Fin 1
      else if emission b = None then Fin (- 1)
      else js_sub (the (emission a)) (the (emission b)))"

text \<open>
  \<open>Array.prototype.sort\<close> with a comparator. The language requires a stable sort: \<open>a\<close>
  is moved behind \<open>b\<close> only when the comparator's result for \<open>(a, b)\<close> is greater than
  zero (\<open>NaN\<close> counts as zero). For a consistent comparator every conforming sort returns
  the array that this stable insertion sort returns.
\<close>

fun sort_insert :: "('a \<Rightarrow> 'a \<Rightarrow> jsnum) \<Rightarrow> 'a \<Rightarrow> 'a list \<Rightarrow> 'a list" where
  "sort_insert cmp x [] = [x]"
| "sort_insert cmp x (y # ys) =
     (if js_gt (cmp x y) (Fin 0) then y # sort_insert cmp x ys else x # y # ys)"

definition Array_sort :: "('a \<Rightarrow> 'a \<Rightarrow> jsnum) \<Rightarrow> 'a list \<Rightarrow> 'a list" where
  "Array_sort cmp xs = foldr (sort_insert cmp) xs []"

text \<open>
  The callback of \<open>modes.forEach\<close>: the entry pushed for one mode, given the emission
  computed for the car. The test \<open>carEmission > 0\<close> is made only when both values are
  not \<open>null\<close>.
\<close>

definition push_entry :: "config \<Rightarrow> jsnum \<Rightarrow> jsnum option \<Rightarrow> jsstring \<Rightarrow> entry" where
  "push_entry cfg distanceKm carEmission mode' =
     (let emission = calculateEmission cfg distanceKm mode';
          percentage =
            (if emission \<noteq> None \<and> carEmission \<noteq> None \<and> js_gt (the carEmission) (Fin 0)
             then Some (round' (js_mul (js_div (the emission) (the carEmission)) (Fin 100)) 2)
             else None)
      in \<lparr>mode = mode', emission = emission, percentageVsCar = percentage\<rparr>)"

definition calculateAllModes :: "config \<Rightarrow> jsnum \<Rightarrow> entry list" where
  "calculateAllModes cfg distanceKm =
     (case EMISSION_FACTORS cfg of
        None \<Rightarrow> []
      | Some factors \<Rightarrow>
          let modes = Object_keys factors;
              carEmission = (if str ''car'' \<in> set modes
                             then calculateEmission cfg distanceKm (str ''car'') else None);
              results = map (push_entry cfg distanceKm carEmission) modes
          in Array_sort compare_emission results)"

section \<open>The route table and the distance lookup (routes-data.js)\<close>

datatype route = Route (origin: jsstring) (destination: jsstring) (distanceKm: jsnum)

definition routes :: "route list" where
  "routes = [
      Route (str ''S'' @ [227] @ str ''o Paulo, SP'')
            (str ''Rio de Janeiro, RJ'') (Fin 430),
      Route (str ''S'' @ [227] @ str ''o Paulo, SP'')
            (str ''Bras'' @ [237] @ str ''lia, DF'') (Fin 1015),
      Route (str ''Rio de Janeiro, RJ'')
            (str ''Bras'' @ [237] @ str ''lia, DF'') (Fin 1148),
      Route (str ''S'' @ [227] @ str ''o Paulo, SP'')
            (str ''Campinas, SP'') (Fin 95),
      Route (str ''Rio de Janeiro, RJ'')
            (str ''Niter'' @ [243] @ str ''i, RJ'') (Fin 13),
      Route (str ''Belo Horizonte, MG'')
            (str ''Ouro Preto, MG'') (Fin 100),
      Route (str ''S'' @ [227] @ str ''o Paulo, SP'')
            (str ''Belo Horizonte, MG'') (Fin 586),
      Route (str ''Salvador, BA'')
            (str ''Feira de Santana, BA'') (Fin 109),
      Route (str ''Salvador, BA'')
            (str ''Bras'' @ [237] @ str ''lia, DF'') (Fin 1120),
      Route (str ''Fortaleza, CE'')
            (str ''Natal, RN'') (Fin 534),
      Route (str ''Recife, PE'')
            (str ''Jo'' @ [227] @ str ''o Pessoa, PB'') (Fin 120),
      Route (str ''Recife, PE'')
            (str ''Salvador, BA'') (Fin 800),
      Route (str ''Manaus, AM'')
            (str ''Porto Velho, RO'') (Fin 880),
      Route (str ''Bel'' @ [233] @ str ''m, PA'')
            (str ''S'' @ [227] @ str ''o Lu'' @ [237] @ str ''s, MA'') (Fin 980),
      Route (str ''Curitiba, PR'')
            (str ''Florian'' @ [243] @ str ''polis, SC'') (Fin 300),
      Route (str ''Porto Alegre, RS'')
            (str ''Florian'' @ [243] @ str ''polis, SC'') (Fin 470),
      Route (str ''Curitiba, PR'')
            (str ''S'' @ [227] @ str ''o Paulo, SP'') (Fin 408),
      Route (str ''Vit'' @ [243] @ str ''ria, ES'')
            (str ''Rio de Janeiro, RJ'') (Fin 520),
      Route (str ''Goi'' @ [226] @ str ''nia, GO'')
            (str ''Bras'' @ [237] @ str ''lia, DF'') (Fin 205),
      Route (str ''Cuiab'' @ [225] @ str '', MT'')
            (str ''Campo Grande, MS'') (Fin 690),
      Route (str ''Campo Grande, MS'')
            (str ''Goi'' @ [226] @ str ''nia, GO'') (Fin 780),
      Route (str ''Manaus, AM'')
            (str ''Bel'' @ [233] @ str ''m, PA'') (Fin 1040),
      Route (str ''Teresina, PI'')
            (str ''Fortaleza, CE'') (Fin 530),
      Route (str ''Jo'' @ [227] @ str ''o Pessoa, PB'')
            (str ''Natal, RN'') (Fin 190),
      Route (str ''Aracaju, SE'')
            (str ''Salvador, BA'') (Fin 330),
      Route (str ''Macei'' @ [243] @ str '', AL'')
            (str ''Recife, PE'') (Fin 250),
      Route (str ''S'' @ [227] @ str ''o Paulo, SP'')
            (str ''Santos, SP'') (Fin 72),
      Route (str ''Rio de Janeiro, RJ'')
            (str ''Petr'' @ [243] @ str ''polis, RJ'') (Fin 68),
      Route (str ''Belo Horizonte, MG'')
            (str ''Uberl'' @ [226] @ str ''ndia, MG'') (Fin 500),
      Route (str ''Ribeir'' @ [227] @ str ''o Preto, SP'')
            (str ''S'' @ [227] @ str ''o Paulo, SP'') (Fin 318),
      Route (str ''Campinas, SP'')
            (str ''S'' @ [227] @ str ''o Jos'' @ [233] @ str '' dos Campos, SP'') (Fin 100),
      Route (str ''Porto Velho, RO'')
            (str ''Rio Branco, AC'') (Fin 507),
      Route (str ''Palmas, TO'')
            (str ''Goi'' @ [226] @ str ''nia, GO'') (Fin 720),
      Route (str ''Salvador, BA'')
            (str ''Ilh'' @ [233] @ str ''us, BA'') (Fin 275),
      Route (str ''Curitiba, PR'')
            (str ''Porto Alegre, RS'') (Fin 710)
     ]"

text \<open>
  \<open>String.prototype.trim\<close> removes the white space and line terminators of the language
  from both ends.
\<close>

definition is_space :: "nat \<Rightarrow> bool" where
  "is_space c = (c \<in> {9, 10, 11, 12, 13, 32, 160, 5760, 8232, 8233, 8239, 8287, 12288, 65279}
                 \<or> (8192 \<le> c \<and> c \<le> 8202))"

definition trim :: "jsstring \<Rightarrow> jsstring" where
  "trim s = rev (dropWhile is_space (rev (dropWhile is_space s)))"

text \<open>
  \<open>String.prototype.toLowerCase\<close> on the Basic Latin and Latin-1 blocks, which hold every
  character of the route table: the capitals \<open>A\<close> to \<open>Z\<close> and U+00C0 to U+00DE (the
  multiplication sign U+00D7 apart) move up by 32. Code units above U+00FF are left as
  they are in this model.
\<close>

definition lower_unit :: "nat \<Rightarrow> nat" where
  "lower_unit c = (if (65 \<le> c \<and> c \<le> 90) \<or> (192 \<le> c \<and> c \<le> 222 \<and> c \<noteq> 215) then c + 32 else c)"

definition toLowerCase :: "jsstring \<Rightarrow> jsstring" where
  "toLowerCase s = map lower_unit s"

text \<open>
  The scan of \<open>findDistance\<close>, for a table and a normalisation of strings: the loop
  visits the records in order and returns at the first match.
\<close>

fun scan :: "(jsstring \<Rightarrow> jsstring) \<Rightarrow> route list \<Rightarrow> jsstring \<Rightarrow> jsstring \<Rightarrow> jsnum option" where
  "scan nrm [] o1 d1 = None"
| "scan nrm (r # rs) o1 d1 =
     (let rOrigin = nrm (origin r); rDest = nrm (destination r)
      in if (rOrigin = o1 \<and> rDest = d1) \<or> (rOrigin = d1 \<and> rDest = o1)
         then Some (distanceKm r)
         else scan nrm rs o1 d1)"

definition findDistance_by ::
  "(jsstring \<Rightarrow> jsstring) \<Rightarrow> route list \<Rightarrow> jsstring \<Rightarrow> jsstring \<Rightarrow> jsnum option" where
  "findDistance_by nrm table origin' destination' =
     (if origin' = [] \<or> destination' = [] then None
      else
        let o1 = nrm origin'; d1 = nrm destination'
        in scan nrm table o1 d1)"

text \<open>\<open>findDistance\<close>: the empty string is the falsy string.\<close>

definition findDistance :: "jsstring \<Rightarrow> jsstring \<Rightarrow> jsnum option" where
  "findDistance origin' destination' =
     findDistance_by (\<lambda>s. toLowerCase (trim s)) routes origin' destination'"

section \<open>The price estimate as the specification words it\<close>

text \<open>
  The specification's \<open>estimatePrice\<close>, following its words: the average is taken from the
  rounded \<open>min\<close> and \<open>max\<close>. It is compared with \<open>estimateCreditPrice\<close> below.
\<close>

definition estimatePrice_spec :: "config \<Rightarrow> jsnum \<Rightarrow> price_estimate option" where
  "estimatePrice_spec cfg credits =
     (case CARBON_CREDIT cfg of
        None \<Rightarrow> None
      | Some policy \<Rightarrow>
          if Number_isNaN credits \<or> js_lt credits (Fin 0) then None
          else
            let mn = round' (js_mul credits (PRICE_MIN_BRL policy)) 2;
                mx = round' (js_mul credits (PRICE_MAX_BRL policy)) 2
            in Some \<lparr>min_price = mn, max_price = mx,
                      average = round' (js_div (js_add mn mx) (Fin 2)) 2\<rparr>)"

section \<open>Notions used in the proofs\<close>

text \<open>The exponent and the rounded value that \<open>rd\<close> computes before it tests for overflow.\<close>

definition rd_exp :: "rat \<Rightarrow> int" where
  "rd_exp q = max (ilog2 q) (- 1022)"

definition rd_val :: "rat \<Rightarrow> rat" where
  "rd_val q = of_int (rne (q / 2 powi (rd_exp q - 52))) * 2 powi (rd_exp q - 52)"

text \<open>A number that is zero or more, \<open>+\<infinity>\<close> included.\<close>

fun nonneg :: "jsnum \<Rightarrow> bool" where
  "nonneg (Fin v) = (0 \<le> v)"
| "nonneg PInf = True"
| "nonneg x = False"

text \<open>
  A number that is not \<open>NaN\<close> and, when finite, a multiple of the smallest positive
  binary64 value: every result of \<open>rd\<close> is one.
\<close>

definition on_grid :: "jsnum \<Rightarrow> bool" where
  "on_grid x = (x \<noteq> NaN \<and> (\<forall>v. x = Fin v \<longrightarrow> (\<exists>n. v = of_int n * 2 powi (- 1074))))"

text \<open>
  \<open>may_precede a b\<close>: entry \<open>a\<close> may stand before entry \<open>b\<close> in a list that ascends by
  emission with the \<open>null\<close> emissions last.
\<close>

definition may_precede :: "entry \<Rightarrow> entry \<Rightarrow> bool" where
  "may_precede a b =
     (case (emission a, emission b) of
        (_, None) \<Rightarrow> True
      | (None, Some y) \<Rightarrow> False
      | (Some x, Some y) \<Rightarrow> \<not> js_lt y x)"

text \<open>An entry whose emission, when it is a number, is a number of the grid.\<close>

definition entry_ok :: "entry \<Rightarrow> bool" where
  "entry_ok e = (\<forall>v. emission e = Some v \<longrightarrow> on_grid v)"

text \<open>
  A table of normalised routes in which a later record with the same pair of cities, in
  either direction, has the same distance.
\<close>

definition normalized ::
  "(jsstring \<Rightarrow> jsstring) \<Rightarrow> route list \<Rightarrow> (jsstring \<times> jsstring \<times> jsnum) list" where
  "normalized nrm table = map (\<lambda>r. (nrm (origin r), nrm (destination r), distanceKm r)) table"

fun no_clash :: "(jsstring \<times> jsstring \<times> jsnum) list \<Rightarrow> bool" where
  "no_clash [] = True"
| "no_clash ((a, b, k) # rest) =
     (list_all (\<lambda>(a', b', k'). (a = a' \<and> b = b') \<or> (a = b' \<and> b = a') \<longrightarrow> k = k') rest
      \<and> no_clash rest)"

section \<open>Evaluating the arithmetic on numerals\<close>

lemma bitlen_numeral: "bitlen (numeral n) = bitlen (numeral n div 2) + 1"
  by (subst compute_bitlen) simp

lemma bitlen_one: "bitlen 1 = 1"
  by (subst compute_bitlen) simp

lemma floor_rat_numeral: "\<lfloor>numeral a / numeral b :: rat\<rfloor> = numeral a div numeral b"
  by (metis floor_divide_of_int_eq of_int_numeral)

lemma floor_rat_neg_numeral:
  "\<lfloor>- (numeral a / numeral b) :: rat\<rfloor> = - numeral a div numeral b"
  by (metis floor_divide_of_int_eq of_int_numeral of_int_minus minus_divide_left)

lemma ceiling_rat_numeral: "\<lceil>numeral a / numeral b :: rat\<rceil> = - (- numeral a div numeral b)"
  unfolding ceiling_def by (simp add: floor_rat_neg_numeral)

lemmas rd_eval = rd_def ilog2_def rne_def Let_def bitlen_numeral bitlen_one floor_rat_numeral
  floor_rat_neg_numeral ceiling_rat_numeral lit_def

lemmas calc_eval = calculateEmission_def calculateSavings_def calculateCarbonCredits_def
  estimateCreditPrice_def estimatePrice_spec_def round'_def Math_pow10_def Number_EPSILON_def
  Number_isNaN_def js_gt_def CONFIG_def EMISSION_FACTORS_table_def CARBON_CREDIT_policy_def
  get_prop_def str_def Object_prototype_names_def

lemmas modes_eval = calculateAllModes_def push_entry_def Object_keys_def Array_sort_def compare_emission_def

section \<open>The rounding to binary64\<close>

declare js_le_def [simp]

lemma rd_alt:
  "rd q = (if 2 powi 1024 \<le> rd_val q then PInf
           else if rd_val q \<le> - (2 powi 1024) then NInf else Fin (rd_val q))"
  by (simp add: rd_def rd_val_def rd_exp_def Let_def)

lemma ilog2_bounds:
  assumes "q \<noteq> 0"
  shows "2 powi (ilog2 q) \<le> \<bar>q\<bar>" and "\<bar>q\<bar> < 2 powi (ilog2 q + 1)"
proof -
  have pos: "0 < \<bar>q\<bar>" using assms by simp
  have "2 powi (ilog2 q) \<le> \<bar>q\<bar> \<and> \<bar>q\<bar> < 2 powi (ilog2 q + 1)"
  proof (cases "1 \<le> \<bar>q\<bar>")
    case True
    define x where "x = \<lfloor>\<bar>q\<bar>\<rfloor>"
    have x1: "1 \<le> x" using True by (simp add: x_def le_floor_iff)
    then have xpos: "0 < x" by simp
    from bitlen_bounds [OF xpos]
    have lo: "2 ^ nat (bitlen x - 1) \<le> x" and hi: "x < 2 ^ nat (bitlen x)" by simp_all
    have b1: "1 \<le> bitlen x" using xpos by (simp add: bitlen_alt_def)
    have il: "ilog2 q = bitlen x - 1" using True by (simp add: ilog2_def x_def)
    have p1: "(2::rat) powi (bitlen x - 1) = of_int (2 ^ nat (bitlen x - 1))"
      using b1 by (simp add: power_int_def)
    have p2: "(2::rat) powi (bitlen x - 1 + 1) = of_int (2 ^ nat (bitlen x))"
      using b1 by (simp add: power_int_def)
    have "of_int x \<le> \<bar>q\<bar>" by (simp add: x_def)
    moreover have "(of_int (2 ^ nat (bitlen x - 1)) :: rat) \<le> of_int x"
      using lo by (simp only: of_int_le_iff)
    ultimately have A: "2 powi (ilog2 q) \<le> \<bar>q\<bar>" unfolding il p1 by linarith
    have "\<bar>q\<bar> < of_int x + 1" unfolding x_def by linarith
    moreover have "x + 1 \<le> 2 ^ nat (bitlen x)" using hi by simp
    then have "(of_int (x + 1) :: rat) \<le> of_int (2 ^ nat (bitlen x))"
      by (simp only: of_int_le_iff)
    ultimately have B: "\<bar>q\<bar> < 2 powi (ilog2 q + 1)" unfolding il p2 by simp
    from A B show ?thesis ..
  next
    case False
    define r where "r = 1 / \<bar>q\<bar>"
    define c where "c = \<lceil>r\<rceil>"
    have r1: "1 < r" using False pos by (simp add: r_def)
    have c2: "2 \<le> c" using r1 unfolding c_def by (simp add: le_ceiling_iff)
    then have cpos: "0 < c - 1" by simp
    define m where "m = bitlen (c - 1)"
    from bitlen_bounds [OF cpos]
    have lo: "2 ^ nat (m - 1) \<le> c - 1" and hi: "c - 1 < 2 ^ nat m" by (simp_all add: m_def)
    have m1: "1 \<le> m" using cpos by (simp add: m_def bitlen_alt_def)
    have il: "ilog2 q = - m" using False by (simp add: ilog2_def m_def c_def r_def)
    have rc: "r \<le> of_int c" by (simp add: c_def)
    have cr: "of_int (c - 1) < r" unfolding c_def using ceiling_correct [of r] by simp
    have "c \<le> 2 ^ nat m" using hi by simp
    then have "(of_int c :: rat) \<le> of_int (2 ^ nat m)" by (simp only: of_int_le_iff)
    then have "(of_int c :: rat) \<le> 2 ^ nat m" by (simp only: of_int_power of_int_numeral)
    with rc have r_hi: "r \<le> 2 ^ nat m" by linarith
    have "(of_int (2 ^ nat (m - 1)) :: rat) \<le> of_int (c - 1)" using lo by (simp only: of_int_le_iff)
    then have "(2 :: rat) ^ nat (m - 1) \<le> of_int (c - 1)" by (simp only: of_int_power of_int_numeral)
    with cr have r_lo: "2 ^ nat (m - 1) < r" by linarith
    have q_eq: "\<bar>q\<bar> = 1 / r" using pos by (simp add: r_def)
    have rpos: "0 < r" using r1 by simp
    have p1: "(2::rat) powi (- m) = 1 / 2 ^ nat m"
      using m1 by (simp add: power_int_def field_simps)
    have p2: "(2::rat) powi (- m + 1) = 1 / 2 ^ nat (m - 1)"
      using m1 by (simp add: power_int_def field_simps nat_diff_distrib)
    have A: "2 powi (ilog2 q) \<le> \<bar>q\<bar>"
      unfolding il p1 q_eq using r_hi rpos by (simp add: frac_le)
    have B: "\<bar>q\<bar> < 2 powi (ilog2 q + 1)"
      unfolding il p2 q_eq using r_lo rpos by (simp add: frac_less2)
    from A B show ?thesis ..
  qed
  then show "2 powi (ilog2 q) \<le> \<bar>q\<bar>" and "\<bar>q\<bar> < 2 powi (ilog2 q + 1)" by simp_all
qed

lemma rne_bounds: "x - 1 / 2 \<le> of_int (rne x)" "of_int (rne x) \<le> x + 1 / 2"
proof -
  define f where "f = \<lfloor>x\<rfloor>"
  have f: "of_int f \<le> x" "x < of_int f + 1"
    using floor_correct [of x] by (simp_all add: f_def)
  have r: "rne x = (if x - of_int f < 1 / 2 then f else if 1 / 2 < x - of_int f then f + 1
                    else if even f then f else f + 1)"
    by (simp add: rne_def f_def Let_def)
  from f show "x - 1 / 2 \<le> of_int (rne x)" unfolding r by (auto split: if_splits)
  from f show "of_int (rne x) \<le> x + 1 / 2" unfolding r by (auto split: if_splits)
qed

lemma rne_of_int: "rne (of_int n) = n"
  by (simp add: rne_def)

lemma rne_mono:
  assumes "x \<le> y"
  shows "rne x \<le> rne y"
proof (rule ccontr)
  assume "\<not> rne x \<le> rne y"
  then have "rne y + 1 \<le> rne x" by simp
  then have "(of_int (rne y) :: rat) + 1 \<le> of_int (rne x)"
    by (metis of_int_1 of_int_add of_int_le_iff)
  with rne_bounds(2) [of x] rne_bounds(1) [of y] assms
  have "x = y" by linarith
  with \<open>\<not> rne x \<le> rne y\<close> show False by simp
qed

lemma pow2_pos: "0 < (2::rat) powi k"
  by simp

lemma pow2_add: "(2::rat) powi (a + b) = 2 powi a * 2 powi b"
  by (simp add: power_int_add)

lemma pow2_mono: "a \<le> b \<Longrightarrow> (2::rat) powi a \<le> 2 powi b"
  by (simp add: power_int_increasing)

lemma pow2_less_cancel:
  assumes "(2::rat) powi a < 2 powi b"
  shows "a < b"
proof (rule ccontr)
  assume "\<not> a < b"
  then have "(2::rat) powi b \<le> 2 powi a" by (simp add: pow2_mono)
  with assms show False by simp
qed

lemma pow2_nat: "0 \<le> k \<Longrightarrow> (2::rat) powi k = of_int (2 ^ nat k)"
  by (simp add: power_int_def)

lemma rd_exp_ge: "- 1022 \<le> rd_exp q"
  by (simp add: rd_exp_def)

lemma rd_val_zero: "rd_val 0 = 0"
  by (simp add: rd_val_def rne_of_int [of 0, simplified])

lemma rne_nonneg: "0 \<le> x \<Longrightarrow> 0 \<le> rne x"
  using rne_mono [of 0 x] rne_of_int [of 0] by simp

lemma rne_nonpos: "x \<le> 0 \<Longrightarrow> rne x \<le> 0"
  using rne_mono [of x 0] rne_of_int [of 0] by simp

lemma rd_val_nonneg: "0 \<le> q \<Longrightarrow> 0 \<le> rd_val q"
  unfolding rd_val_def by (intro mult_nonneg_nonneg) (simp_all add: rne_nonneg)

lemma rd_val_nonpos: "q \<le> 0 \<Longrightarrow> rd_val q \<le> 0"
  unfolding rd_val_def
  by (intro mult_nonpos_nonneg) (simp_all add: rne_nonpos divide_nonpos_pos)

lemma rd_val_grid: "\<exists>n. rd_val q = of_int n * 2 powi (- 1074)"
proof -
  define e where "e = rd_exp q"
  have e: "0 \<le> e + 1022" using rd_exp_ge [of q] by (simp add: e_def)
  have "(2::rat) powi (e - 52) = 2 powi ((e + 1022) + (- 1074))" by simp
  also have "\<dots> = 2 powi (e + 1022) * 2 powi (- 1074)" by (rule pow2_add)
  also have "\<dots> = of_int (2 ^ nat (e + 1022)) * 2 powi (- 1074)"
    by (simp only: pow2_nat [OF e])
  finally have "rd_val q = of_int (rne (q / 2 powi (e - 52)) * 2 ^ nat (e + 1022)) * 2 powi (- 1074)"
    by (simp add: rd_val_def e_def)
  then show ?thesis ..
qed

lemma abs_less_rd_exp:
  assumes "q \<noteq> 0"
  shows "\<bar>q\<bar> < 2 powi (rd_exp q + 1)"
proof -
  have "\<bar>q\<bar> < 2 powi (ilog2 q + 1)" by (rule ilog2_bounds(2) [OF assms])
  also have "\<dots> \<le> 2 powi (rd_exp q + 1)" by (rule pow2_mono) (simp add: rd_exp_def)
  finally show ?thesis .
qed

lemma ulp_mult: "9007199254740992 * (2::rat) powi (e - 52) = 2 powi (e + 1)"
proof -
  have "e + 1 = 53 + (e - 52)" by simp
  then have "(2::rat) powi (e + 1) = 2 powi (53 + (e - 52))" by (rule arg_cong)
  also have "\<dots> = 2 powi 53 * 2 powi (e - 52)" by (rule pow2_add)
  finally show ?thesis by simp
qed

lemma ulp_mult': "4503599627370496 * (2::rat) powi (e - 52) = 2 powi e"
proof -
  have "e = 52 + (e - 52)" by simp
  then have "(2::rat) powi e = 2 powi (52 + (e - 52))" by (rule arg_cong)
  also have "\<dots> = 2 powi 52 * 2 powi (e - 52)" by (rule pow2_add)
  finally show ?thesis by simp
qed

lemma rne_le_int: "x \<le> of_int n \<Longrightarrow> rne x \<le> n"
  using rne_mono [of x "of_int n"] by (simp add: rne_of_int)

lemma rne_ge_int: "of_int n \<le> x \<Longrightarrow> n \<le> rne x"
  using rne_mono [of "of_int n" x] by (simp add: rne_of_int)

lemma mant_bound:
  "\<bar>rne (q / 2 powi (rd_exp q - 52))\<bar> \<le> 9007199254740992"
proof (cases "q = 0")
  case True
  then show ?thesis by (simp add: rne_of_int [of 0, simplified])
next
  case False
  define u where "u = (2::rat) powi (rd_exp q - 52)"
  have u: "0 < u" by (simp add: u_def)
  have "\<bar>q\<bar> < 2 ^ 53 * u" using abs_less_rd_exp [OF False] by (simp add: u_def ulp_mult)
  then have "\<bar>q\<bar> / u < 2 ^ 53" using u by (simp add: pos_divide_less_eq)
  then have "- (2 ^ 53) \<le> q / u" "q / u \<le> 2 ^ 53"
    using u by (simp_all add: abs_if divide_simps split: if_splits)
  then have lo: "of_int (- (2 ^ 53)) \<le> q / u" and hi: "q / u \<le> of_int (2 ^ 53)" by simp_all
  have "- (2 ^ 53) \<le> rne (q / u)" by (rule rne_ge_int [OF lo])
  moreover have "rne (q / u) \<le> 2 ^ 53" by (rule rne_le_int [OF hi])
  ultimately show ?thesis by (simp add: u_def)
qed

lemma rd_val_le: "0 \<le> q \<Longrightarrow> rd_val q \<le> 2 powi (rd_exp q + 1)"
proof -
  have "rne (q / 2 powi (rd_exp q - 52)) \<le> 2 ^ 53" using mant_bound [of q] by simp
  then have "(of_int (rne (q / 2 powi (rd_exp q - 52))) :: rat) \<le> of_int (2 ^ 53)"
    by (simp only: of_int_le_iff)
  then have "rd_val q \<le> 2 ^ 53 * 2 powi (rd_exp q - 52)"
    unfolding rd_val_def by (intro mult_right_mono) simp_all
  then show ?thesis by (simp add: ulp_mult)
qed

lemma rd_val_ge:
  assumes "0 < q" and "- 1022 \<le> ilog2 q"
  shows "2 powi (ilog2 q) \<le> rd_val q"
proof -
  have e: "rd_exp q = ilog2 q" using assms(2) by (simp add: rd_exp_def)
  define u where "u = (2::rat) powi (ilog2 q - 52)"
  have u: "0 < u" by (simp add: u_def)
  have "2 ^ 52 * u \<le> q" using ilog2_bounds(1) [of q] assms(1) by (simp add: u_def ulp_mult')
  then have "of_int (2 ^ 52) \<le> q / u" using u by (simp add: pos_le_divide_eq)
  then have "2 ^ 52 \<le> rne (q / u)" by (rule rne_ge_int)
  then have "(of_int (2 ^ 52) :: rat) \<le> of_int (rne (q / u))" by (simp only: of_int_le_iff)
  then have "2 ^ 52 * u \<le> of_int (rne (q / u)) * u"
    using u by (intro mult_right_mono) simp_all
  then show ?thesis by (simp add: rd_val_def e u_def ulp_mult')
qed

lemma ilog2_mono:
  assumes "0 < q" and "q \<le> q'"
  shows "ilog2 q \<le> ilog2 q'"
proof -
  have "2 powi (ilog2 q) \<le> \<bar>q\<bar>" using ilog2_bounds(1) [of q] assms by simp
  also have "\<dots> \<le> \<bar>q'\<bar>" using assms by simp
  also have "\<dots> < 2 powi (ilog2 q' + 1)" using ilog2_bounds(2) [of q'] assms by simp
  finally have "ilog2 q < ilog2 q' + 1" by (rule pow2_less_cancel)
  then show ?thesis by simp
qed

lemma rd_val_mono:
  assumes "0 \<le> q" and "q \<le> q'"
  shows "rd_val q \<le> rd_val q'"
proof (cases "q = 0")
  case True
  then show ?thesis using assms rd_val_nonneg [of q'] by (simp add: rd_val_zero)
next
  case False
  with assms have q: "0 < q" and q': "0 < q'" by simp_all
  have le: "rd_exp q \<le> rd_exp q'"
    using ilog2_mono [OF q assms(2)] by (simp add: rd_exp_def)
  show ?thesis
  proof (cases "rd_exp q = rd_exp q'")
    case True
    have "q / 2 powi (rd_exp q' - 52) \<le> q' / 2 powi (rd_exp q' - 52)"
      using assms(2) by (simp add: divide_right_mono)
    then have "rne (q / 2 powi (rd_exp q' - 52)) \<le> rne (q' / 2 powi (rd_exp q' - 52))"
      by (rule rne_mono)
    then have "(of_int (rne (q / 2 powi (rd_exp q' - 52))) :: rat)
                 \<le> of_int (rne (q' / 2 powi (rd_exp q' - 52)))"
      by (simp only: of_int_le_iff)
    then show ?thesis
      unfolding rd_val_def True by (intro mult_right_mono) simp_all
  next
    case False
    with le have lt: "rd_exp q + 1 \<le> rd_exp q'" by simp
    then have n: "- 1022 \<le> ilog2 q'" and e': "rd_exp q' = ilog2 q'"
      using rd_exp_ge [of q] by (simp_all add: rd_exp_def max_def split: if_splits)
    have "rd_val q \<le> 2 powi (rd_exp q + 1)" by (rule rd_val_le [OF assms(1)])
    also have "\<dots> \<le> 2 powi (ilog2 q')" using lt e' by (simp add: pow2_mono)
    also have "\<dots> \<le> rd_val q'" by (rule rd_val_ge [OF q' n])
    finally show ?thesis .
  qed
qed

lemma pow2_le_cancel:
  assumes "(2::rat) powi a \<le> 2 powi b"
  shows "a \<le> b"
proof (rule ccontr)
  assume "\<not> a \<le> b"
  then have "(2::rat) powi b < 2 powi a" by (simp add: power_int_strict_increasing)
  with assms show False by simp
qed

lemma rd_not_NaN: "rd q \<noteq> NaN"
  by (simp add: rd_alt)

lemma rd_nonneg: "0 \<le> q \<Longrightarrow> nonneg (rd q)"
  using rd_val_nonneg [of q] by (simp add: rd_alt)

lemma rd_mono:
  assumes "0 \<le> q" and "q \<le> q'"
  shows "js_le (rd q) (rd q')"
proof -
  have "rd_val q \<le> rd_val q'" by (rule rd_val_mono [OF assms])
  moreover have "0 \<le> rd_val q" by (rule rd_val_nonneg [OF assms(1)])
  moreover have "- (2 powi 1024) < (0::rat)" by simp
  ultimately show ?thesis by (auto simp: rd_alt)
qed

lemma rd_val_of_int_mult:
  assumes "v / 2 powi (rd_exp v - 52) = of_int k"
  shows "rd_val v = v"
proof -
  have "rd_val v = of_int k * 2 powi (rd_exp v - 52)"
    by (simp add: rd_val_def assms rne_of_int)
  also have "\<dots> = v" using assms by (simp add: field_simps)
  finally show ?thesis .
qed

lemma rd_val_fix:
  assumes v: "v = of_int n * 2 powi (e - 52)" and e: "- 1022 \<le> e" and n: "\<bar>n\<bar> \<le> 9007199254740992"
  shows "rd_val v = v"
proof (cases "v = 0")
  case True
  then show ?thesis by (simp add: rd_val_zero)
next
  case False
  have "(of_int \<bar>n\<bar> :: rat) \<le> of_int 9007199254740992" using n by (simp only: of_int_le_iff)
  then have "\<bar>v\<bar> \<le> 9007199254740992 * 2 powi (e - 52)"
    unfolding v abs_mult by (intro mult_mono) simp_all
  then have v_le: "\<bar>v\<bar> \<le> 2 powi (e + 1)" by (simp add: ulp_mult)
  have "2 powi (ilog2 v) \<le> \<bar>v\<bar>" by (rule ilog2_bounds(1) [OF False])
  with v_le have "(2::rat) powi (ilog2 v) \<le> 2 powi (e + 1)" by simp
  then have "ilog2 v \<le> e + 1" by (rule pow2_le_cancel)
  with e have ev: "rd_exp v \<le> e + 1" by (simp add: rd_exp_def)
  show ?thesis
  proof (cases "rd_exp v \<le> e")
    case True
    define d where "d = e - rd_exp v"
    have d: "0 \<le> d" using True by (simp add: d_def)
    have "e - 52 = d + (rd_exp v - 52)" by (simp add: d_def)
    then have "(2::rat) powi (e - 52) = 2 powi (d + (rd_exp v - 52))" by (rule arg_cong)
    also have "\<dots> = 2 powi d * 2 powi (rd_exp v - 52)" by (rule pow2_add)
    also have "\<dots> = of_int (2 ^ nat d) * 2 powi (rd_exp v - 52)" by (simp only: pow2_nat [OF d])
    finally have P: "(2::rat) powi (e - 52) = of_int (2 ^ nat d) * 2 powi (rd_exp v - 52)" .
    have "v = of_int (n * 2 ^ nat d) * 2 powi (rd_exp v - 52)"
      by (subst v, subst P) simp
    then have "v / 2 powi (rd_exp v - 52)
                 = of_int (n * 2 ^ nat d) * 2 powi (rd_exp v - 52) / 2 powi (rd_exp v - 52)"
      by simp
    then have "v / 2 powi (rd_exp v - 52) = of_int (n * 2 ^ nat d)"
      by (simp only: nonzero_mult_div_cancel_right [OF pow2_pos [THEN less_imp_neq, THEN not_sym]])
    then show ?thesis by (rule rd_val_of_int_mult)
  next
    case False
    with ev have eq: "rd_exp v = e + 1" by simp
    with e have il: "ilog2 v = e + 1" by (simp add: rd_exp_def max_def split: if_splits)
    have "2 powi (e + 1) \<le> \<bar>v\<bar>" using ilog2_bounds(1) [OF \<open>v \<noteq> 0\<close>] by (simp add: il)
    with v_le have av: "\<bar>v\<bar> = 2 powi (e + 1)" by simp
    have "e + 1 = 52 + (rd_exp v - 52)" by (simp add: eq)
    then have "(2::rat) powi (e + 1) = 2 powi (52 + (rd_exp v - 52))" by (rule arg_cong)
    also have "\<dots> = 2 powi 52 * 2 powi (rd_exp v - 52)" by (rule pow2_add)
    finally have p: "\<bar>v\<bar> = 2 ^ 52 * 2 powi (rd_exp v - 52)" by (simp add: av)
    have "v / 2 powi (rd_exp v - 52) = of_int (if 0 \<le> v then 2 ^ 52 else - (2 ^ 52))"
    proof (cases "0 \<le> v")
      case True
      with p have "v = 2 ^ 52 * 2 powi (rd_exp v - 52)" by simp
      then have "v / 2 powi (rd_exp v - 52) = 2 ^ 52" by (simp add: field_simps)
      with True show ?thesis by simp
    next
      case False
      with p have "v = - (2 ^ 52 * 2 powi (rd_exp v - 52))" by simp
      then have "v / 2 powi (rd_exp v - 52) = - (2 ^ 52)" by (simp add: field_simps)
      with False show ?thesis by simp
    qed
    then show ?thesis by (rule rd_val_of_int_mult)
  qed
qed

lemma rd_val_idem: "rd_val (rd_val q) = rd_val q"
  by (rule rd_val_fix [where e = "rd_exp q" and n = "rne (q / 2 powi (rd_exp q - 52))"])
     (simp_all add: rd_val_def rd_exp_ge mant_bound)

lemma rd_val_double: "rd_val (2 * rd_val q) = 2 * rd_val q"
proof (rule rd_val_fix [where e = "rd_exp q + 1" and n = "rne (q / 2 powi (rd_exp q - 52))"])
  have "rd_exp q + 1 - 52 = 1 + (rd_exp q - 52)" by simp
  then have "(2::rat) powi (rd_exp q + 1 - 52) = 2 powi (1 + (rd_exp q - 52))" by (rule arg_cong)
  also have "\<dots> = 2 powi 1 * 2 powi (rd_exp q - 52)" by (rule pow2_add)
  finally show "2 * rd_val q = of_int (rne (q / 2 powi (rd_exp q - 52))) * 2 powi (rd_exp q + 1 - 52)"
    by (simp add: rd_val_def)
  show "- 1022 \<le> rd_exp q + 1" using rd_exp_ge [of q] by simp
  show "\<bar>rne (q / 2 powi (rd_exp q - 52))\<bar> \<le> 9007199254740992" by (rule mant_bound)
qed

lemma rd_Fin_val: "rd q = Fin v \<Longrightarrow> v = rd_val q \<and> rd_val q < 2 powi 1024"
  by (auto simp: rd_alt split: if_splits)

lemma rd_of_rd_val:
  "rd (rd_val q) = (if 2 powi 1024 \<le> rd_val q then PInf
           else if rd_val q \<le> - (2 powi 1024) then NInf else Fin (rd_val q))"
  by (simp only: rd_alt [of "rd_val q"] rd_val_idem)

lemma rd_idem:
  assumes "rd q = Fin v"
  shows "rd v = Fin v"
proof -
  from assms have v: "v = rd_val q" and "\<not> 2 powi 1024 \<le> rd_val q"
    and "\<not> rd_val q \<le> - (2 powi 1024)"
    by (auto simp: rd_alt split: if_splits)
  then show ?thesis unfolding v rd_of_rd_val by (simp only: if_False)
qed

lemma rd_of_double:
  "rd (2 * rd_val q) = (if 2 powi 1024 \<le> 2 * rd_val q then PInf
           else if 2 * rd_val q \<le> - (2 powi 1024) then NInf else Fin (2 * rd_val q))"
  by (simp only: rd_alt [of "2 * rd_val q"] rd_val_double)

lemma rd_double:
  assumes "rd q = Fin v" and "0 \<le> v" and "2 * v < 2 powi 1024"
  shows "rd (2 * v) = Fin (2 * v)"
proof -
  from assms(1) have v: "v = rd_val q" by (auto simp: rd_alt split: if_splits)
  have "- (2 powi 1024) < (0::rat)" by simp
  with assms(2) have a: "\<not> 2 * v \<le> - (2 powi 1024)" by linarith
  from assms(3) have b: "\<not> 2 powi 1024 \<le> 2 * v" by linarith
  from a b show ?thesis unfolding v rd_of_double by (simp only: if_False)
qed

lemma rd_overflow:
  assumes "2 powi 1024 \<le> q"
  shows "rd q = PInf"
proof -
  have q: "0 < q" using assms pow2_pos [of 1024] by linarith
  have "(2::rat) powi 1024 \<le> \<bar>q\<bar>" using assms q by simp
  also have "\<dots> < 2 powi (ilog2 q + 1)" using ilog2_bounds(2) [of q] q by simp
  finally have "1024 < ilog2 q + 1" by (rule pow2_less_cancel)
  then have il: "1024 \<le> ilog2 q" by simp
  then have "2 powi (ilog2 q) \<le> rd_val q" by (intro rd_val_ge [OF q]) simp
  moreover have "(2::rat) powi 1024 \<le> 2 powi (ilog2 q)" using il by (rule pow2_mono)
  ultimately have "2 powi 1024 \<le> rd_val q" by linarith
  then show ?thesis by (simp add: rd_alt)
qed

lemma rd_pos:
  assumes "2 powi (- 1074) \<le> q"
  shows "js_lt (Fin 0) (rd q)"
proof -
  have q: "0 < q" using assms pow2_pos [of "- 1074"] by linarith
  define u where "u = (2::rat) powi (rd_exp q - 52)"
  have u: "0 < u" by (simp add: u_def)
  have "u \<le> q"
  proof (cases "- 1022 \<le> ilog2 q")
    case True
    then have "rd_exp q = ilog2 q" by (simp add: rd_exp_def)
    then have "u \<le> 2 powi (ilog2 q)" unfolding u_def by (simp add: pow2_mono)
    also have "\<dots> \<le> q" using ilog2_bounds(1) [of q] q by simp
    finally show ?thesis .
  next
    case False
    then have "rd_exp q = - 1022" by (simp add: rd_exp_def)
    then have "u = 2 powi (- 1074)" by (simp add: u_def)
    with assms show ?thesis by simp
  qed
  then have "of_int 1 \<le> q / u" using u by (simp add: pos_le_divide_eq)
  then have "1 \<le> rne (q / u)" by (rule rne_ge_int)
  then have "(0::rat) < of_int (rne (q / u))" by simp
  then have "0 < rd_val q" unfolding rd_val_def u_def [symmetric] using u by simp
  then show ?thesis by (simp add: rd_alt)
qed

lemma rd_grid: "rd q = Fin v \<Longrightarrow> \<exists>n. v = of_int n * 2 powi (- 1074)"
  using rd_val_grid [of q] by (auto simp: rd_alt split: if_splits)

lemma rd_nonpos: "q \<le> 0 \<Longrightarrow> \<not> js_lt (Fin 0) (rd q)"
  using rd_val_nonpos [of q] by (simp add: rd_alt)

section \<open>The rounding to two decimals\<close>

lemma Math_pow10_2: "Math_pow10 2 = Fin 100"
  by (simp add: Math_pow10_def rd_eval)

lemma round'_2:
  "round' x 2 = js_div (Math_round (js_mul (js_add x (Fin (1 / 2 ^ 52))) (Fin 100))) (Fin 100)"
  by (simp only: round'_def Math_pow10_2 Number_EPSILON_def Let_def)

lemma nonneg_iff: "nonneg x \<longleftrightarrow> x \<noteq> NaN \<and> \<not> js_lt x (Fin 0)"
  by (cases x) auto

lemma nonneg_cases:
  assumes "nonneg x"
  obtains "x = PInf" | v where "x = Fin v" and "0 \<le> v"
  using assms by (cases x) auto

lemma js_le_PInf: "js_le x PInf \<longleftrightarrow> x \<noteq> NaN"
  by (cases x) auto

lemma js_le_Fin: "js_le (Fin a) (Fin b) \<longleftrightarrow> a \<le> b"
  by auto

lemma js_le_rd_PInf: "js_le (rd q) PInf"
  by (simp only: js_le_PInf rd_not_NaN not_False_eq_True)

lemma js_le_PInf_left: "js_le PInf y \<longleftrightarrow> y = PInf"
  by (cases y) auto

text \<open>A step of the rounding: a monotone map of the rationals, rounded.\<close>

lemma step_mono:
  assumes f: "\<And>a b. 0 \<le> a \<Longrightarrow> a \<le> b \<Longrightarrow> f a \<le> f b" and f0: "\<And>a. 0 \<le> a \<Longrightarrow> 0 \<le> f a"
    and g: "\<And>a. g (Fin a) = rd (f a)" and gi: "g PInf = PInf"
    and x: "nonneg x" and le: "js_le x y"
  shows "js_le (g x) (g y) \<and> nonneg (g x)"
proof -
  from x show ?thesis
  proof (cases rule: nonneg_cases)
    case 1
    with le have "y = PInf" by (simp only: js_le_PInf_left)
    with 1 show ?thesis by (simp add: gi)
  next
    case (2 a)
    have nn: "nonneg (g x)" unfolding 2(1) g by (rule rd_nonneg) (rule f0 [OF 2(2)])
    show ?thesis
    proof (cases y)
      case (Fin b)
      with le 2 have "a \<le> b" by simp
      then have "js_le (rd (f a)) (rd (f b))" by (intro rd_mono f0 f 2(2))
      with nn show ?thesis by (simp only: 2(1) Fin g simp_thms)
    next
      case PInf
      with nn show ?thesis by (simp only: 2(1) g gi js_le_rd_PInf simp_thms)
    qed (use le 2 in simp_all)
  qed
qed

lemma add_eps_step:
  assumes "nonneg x" and "js_le x y"
  shows "js_le (js_add x (Fin (1 / 2 ^ 52))) (js_add y (Fin (1 / 2 ^ 52)))
         \<and> nonneg (js_add x (Fin (1 / 2 ^ 52)))"
  by (rule step_mono [where f = "\<lambda>a. a + 1 / 2 ^ 52", OF _ _ _ _ assms]) simp_all

lemma mul_100_step:
  assumes "nonneg x" and "js_le x y"
  shows "js_le (js_mul x (Fin 100)) (js_mul y (Fin 100)) \<and> nonneg (js_mul x (Fin 100))"
  by (rule step_mono [where f = "\<lambda>a. a * 100", OF _ _ _ _ assms]) simp_all

lemma div_100_step:
  assumes "nonneg x" and "js_le x y"
  shows "js_le (js_div x (Fin 100)) (js_div y (Fin 100)) \<and> nonneg (js_div x (Fin 100))"
  by (rule step_mono [where f = "\<lambda>a. a / 100", OF _ _ _ _ assms]) (simp_all add: divide_right_mono)

lemma Math_round_step:
  assumes "nonneg x" and "js_le x y"
  shows "js_le (Math_round x) (Math_round y) \<and> nonneg (Math_round x)"
proof -
  from assms(1) show ?thesis
  proof (cases rule: nonneg_cases)
    case 1
    with assms(2) have "y = PInf" by (simp only: js_le_PInf_left)
    with 1 show ?thesis by simp
  next
    case (2 a)
    then have nn: "0 \<le> \<lfloor>a + 1 / 2\<rfloor>" by simp
    show ?thesis
    proof (cases y)
      case (Fin b)
      with assms(2) 2 have "a \<le> b" by simp
      then have "\<lfloor>a + 1 / 2\<rfloor> \<le> \<lfloor>b + 1 / 2\<rfloor>" by (intro floor_mono) simp
      with nn show ?thesis by (simp add: 2(1) Fin)
    next
      case PInf
      with nn show ?thesis by (simp add: 2(1))
    qed (use assms(2) 2 in simp_all)
  qed
qed

lemma round'_mono:
  assumes "nonneg x" and "js_le x y"
  shows "js_le (round' x 2) (round' y 2)" and "nonneg (round' x 2)"
proof -
  note s1 = add_eps_step [OF assms]
  note s2 = mul_100_step [OF s1 [THEN conjunct2] s1 [THEN conjunct1]]
  note s3 = Math_round_step [OF s2 [THEN conjunct2] s2 [THEN conjunct1]]
  note s4 = div_100_step [OF s3 [THEN conjunct2] s3 [THEN conjunct1]]
  from s4 show "js_le (round' x 2) (round' y 2)" and "nonneg (round' x 2)"
    by (simp_all only: round'_2)
qed

lemma rd_val_ge_pow2:
  assumes "2 powi k \<le> q" and "- 1022 \<le> k"
  shows "2 powi k \<le> rd_val q"
proof -
  have q: "0 < q" using assms(1) pow2_pos [of k] by linarith
  have "(2::rat) powi k \<le> \<bar>q\<bar>" using assms(1) q by simp
  also have "\<dots> < 2 powi (ilog2 q + 1)" using ilog2_bounds(2) [of q] q by simp
  finally have "k < ilog2 q + 1" by (rule pow2_less_cancel)
  then have k: "k \<le> ilog2 q" by simp
  with assms(2) have "2 powi (ilog2 q) \<le> rd_val q" by (intro rd_val_ge [OF q]) simp
  moreover have "(2::rat) powi k \<le> 2 powi (ilog2 q)" using k by (rule pow2_mono)
  ultimately show ?thesis by linarith
qed

lemma js_lt_PInf_left: "\<not> js_lt PInf y"
  by (cases y) auto

lemma round'_PInf: "round' PInf 2 = PInf"
  by (simp add: round'_2)

lemma round'_overflow:
  assumes "2 powi 1022 \<le> y"
  shows "round' (Fin y) 2 = PInf"
proof -
  have "(2::rat) powi 1022 \<le> y + 1 / 2 ^ 52" using assms by simp
  then have w: "2 powi 1022 \<le> rd_val (y + 1 / 2 ^ 52)" by (rule rd_val_ge_pow2) simp
  have "js_mul (rd (y + 1 / 2 ^ 52)) (Fin 100) = PInf"
  proof (cases "rd (y + 1 / 2 ^ 52)")
    case (Fin w)
    then have "w = rd_val (y + 1 / 2 ^ 52)" by (simp add: rd_Fin_val)
    with w have "2 powi 1022 \<le> w" by simp
    moreover have "(2::rat) powi 1024 = 4 * 2 powi 1022" by simp
    ultimately have "2 powi 1024 \<le> w * 100" using pow2_pos [of 1022] by linarith
    then have "rd (w * 100) = PInf" by (rule rd_overflow)
    with Fin show ?thesis by simp
  next
    case NInf
    with w pow2_pos [of 1022] show ?thesis by (auto simp: rd_alt split: if_splits)
  qed (simp_all add: rd_not_NaN)
  then show ?thesis by (simp add: round'_2)
qed

lemma nonneg_not_NaN: "nonneg x \<Longrightarrow> x \<noteq> NaN"
  by (cases x) auto

lemma js_le_refl: "x \<noteq> NaN \<Longrightarrow> js_le x x"
  by (cases x) auto

lemma round'_nonneg:
  assumes "nonneg x"
  shows "nonneg (round' x 2)"
proof -
  have "js_le x x" using assms by (cases x) auto
  with assms show ?thesis by (rule round'_mono(2))
qed

lemma average_bounds:
  assumes p: "0 \<le> p" and pp: "p \<le> p'"
  shows "js_le (rd p) (js_div (js_add (rd p) (rd p')) (Fin 2))"
    and "js_le (round' (js_div (js_add (rd p) (rd p')) (Fin 2)) 2) (round' (rd p') 2)"
proof -
  have nx: "nonneg (rd p)" by (rule rd_nonneg [OF p])
  have ny: "nonneg (rd p')" by (rule rd_nonneg) (use p pp in simp)
  have le: "js_le (rd p) (rd p')" by (rule rd_mono [OF p pp])
  define avg where "avg = js_div (js_add (rd p) (rd p')) (Fin 2)"
  have "js_le (rd p) avg \<and> js_le (round' avg 2) (round' (rd p') 2)"
  proof (cases "rd p'")
    case PInf
    have "js_add (rd p) PInf = PInf" using nx by (cases "rd p") simp_all
    then have avg: "avg = PInf" by (simp add: avg_def PInf)
    show ?thesis using nonneg_not_NaN [OF nx] by (simp add: avg PInf round'_PInf js_lt_PInf_left)
  next
    case (Fin y)
    note y = this
    with le nx obtain x where x: "rd p = Fin x" and xy: "x \<le> y" and x0: "0 \<le> x"
      by (cases "rd p") auto
    have avg: "avg = js_div (rd (x + y)) (Fin 2)" by (simp add: avg_def x y)
    have nadd: "nonneg (rd (x + y))" by (rule rd_nonneg) (use x0 xy in simp)
    have first: "js_le (rd p) avg"
    proof (cases "rd (x + y)")
      case PInf
      then show ?thesis by (simp add: avg x)
    next
      case (Fin t)
      have "js_le (rd (2 * x)) (rd (x + y))" by (rule rd_mono) (use x0 xy in simp_all)
      then have l: "js_le (rd (2 * x)) (Fin t)" by (simp only: Fin)
      have "2 * x < 2 powi 1024"
      proof (rule ccontr)
        assume "\<not> 2 * x < 2 powi 1024"
        then have "rd (2 * x) = PInf" by (intro rd_overflow) simp
        with l show False by simp
      qed
      then have "rd (2 * x) = Fin (2 * x)" by (rule rd_double [OF x x0])
      with l have "2 * x \<le> t" by simp
      then have "js_le (rd x) (rd (t / 2))" by (intro rd_mono x0) simp
      then show ?thesis by (simp add: avg Fin rd_idem [OF x] x)
    qed (use nadd in simp_all)
    have second: "js_le (round' avg 2) (round' (rd p') 2)"
    proof (cases "2 powi 1022 \<le> y")
      case True
      have "nonneg avg"
      proof (cases "rd (x + y)")
        case (Fin t)
        with nadd have "0 \<le> t" by simp
        then have "nonneg (rd (t / 2))" by (intro rd_nonneg) simp
        then show ?thesis by (simp add: avg Fin)
      qed (use nadd in \<open>simp_all add: avg\<close>)
      then have "round' avg 2 \<noteq> NaN" by (intro nonneg_not_NaN round'_nonneg)
      then show ?thesis by (simp add: y round'_overflow [OF True] js_lt_PInf_left)
    next
      case False
      have "(2::rat) powi 1024 = 4 * 2 powi 1022" by simp
      with False have y2: "2 * y < 2 powi 1024" using pow2_pos [of 1022] by linarith
      have y0: "0 \<le> y" using x0 xy by simp
      have dy: "rd (2 * y) = Fin (2 * y)" by (rule rd_double [OF y y0 y2])
      have "js_le (rd (x + y)) (rd (2 * y))" by (rule rd_mono) (use x0 xy in simp_all)
      then obtain t where t: "rd (x + y) = Fin t" and ty: "t \<le> 2 * y"
        using nadd by (cases "rd (x + y)") (simp_all add: dy)
      from nadd t have t0: "0 \<le> t" by simp
      have "js_le (rd (t / 2)) (rd y)" by (rule rd_mono) (use t0 ty in simp_all)
      then have a: "js_le avg (rd p')"
        by (simp add: avg t y rd_idem [OF y])
      have "nonneg avg" using rd_nonneg [of "t / 2"] t0 by (simp add: avg t)
      then show ?thesis using a by (rule round'_mono(1))
    qed
    from first second show ?thesis ..
  qed (use ny in simp_all)
  then show "js_le (rd p) (js_div (js_add (rd p) (rd p')) (Fin 2))"
    and "js_le (round' (js_div (js_add (rd p) (rd p')) (Fin 2)) 2) (round' (rd p') 2)"
    by (simp_all only: avg_def)
qed


section \<open>The sort and the comparison of the modes\<close>

lemma mset_sort_insert: "mset (sort_insert cmp x ys) = add_mset x (mset ys)"
  by (induction ys) simp_all

lemma mset_Array_sort: "mset (Array_sort cmp xs) = mset xs"
  unfolding Array_sort_def by (induction xs) (simp_all add: mset_sort_insert)

lemma set_Array_sort: "set (Array_sort cmp xs) = set xs"
  using mset_Array_sort [of cmp xs] by (metis set_mset_mset)

lemma sort_insert_first:
  "\<forall>y \<in> set ys. \<not> js_gt (cmp x y) (Fin 0) \<Longrightarrow> sort_insert cmp x ys = x # ys"
  by (cases ys) simp_all

lemma filter_null_sort_insert:
  "filter (\<lambda>e. emission e = None) (sort_insert compare_emission x ys)
     = filter (\<lambda>e. emission e = None) (x # ys)"
  by (induction ys) (auto simp: compare_emission_def js_gt_def)

lemma filter_null_Array_sort:
  "filter (\<lambda>e. emission e = None) (Array_sort compare_emission xs)
     = filter (\<lambda>e. emission e = None) xs"
  unfolding Array_sort_def
  by (induction xs) (simp_all add: filter_null_sort_insert)

text \<open>On numbers of the grid the sign of a difference tells the order.\<close>

lemma js_lt_PInf_right: "js_lt x PInf \<longleftrightarrow> x \<noteq> NaN \<and> x \<noteq> PInf"
  by (cases x) auto

lemma js_lt_NInf_left: "js_lt NInf y \<longleftrightarrow> y \<noteq> NaN \<and> y \<noteq> NInf"
  by (cases y) auto

lemma js_lt_NInf_right: "\<not> js_lt x NInf"
  by (cases x) auto

lemma sub_pos_iff:
  assumes "on_grid x" and "on_grid y"
  shows "js_gt (js_sub x y) (Fin 0) \<longleftrightarrow> js_lt y x"
proof (cases x)
  case (Fin a)
  note x = this
  show ?thesis
  proof (cases y)
    case (Fin b)
    from assms x Fin obtain n m where a: "a = of_int n * 2 powi (- 1074)"
      and b: "b = of_int m * 2 powi (- 1074)"
      by (auto simp: on_grid_def)
    have "js_lt (Fin 0) (rd (a - b)) \<longleftrightarrow> b < a"
    proof
      assume "js_lt (Fin 0) (rd (a - b))"
      then have "\<not> a - b \<le> 0" using rd_nonpos [of "a - b"] by blast
      then show "b < a" by simp
    next
      assume "b < a"
      then have "of_int m * 2 powi (- 1074) < (of_int n :: rat) * 2 powi (- 1074)"
        by (simp only: a b)
      then have "(of_int m :: rat) < of_int n"
        using pow2_pos [of "- 1074"] by (simp only: mult_less_cancel_right_pos)
      then have "m + 1 \<le> n" by simp
      then have "(of_int (m + 1) :: rat) \<le> of_int n" by (simp only: of_int_le_iff)
      then have "of_int (m + 1) * 2 powi (- 1074) \<le> (of_int n :: rat) * 2 powi (- 1074)"
        by (intro mult_right_mono) simp_all
      then have "2 powi (- 1074) \<le> a - b" unfolding a b by (simp only: of_int_add of_int_1 distrib_right)
      then show "js_lt (Fin 0) (rd (a - b))" by (rule rd_pos)
    qed
    then show ?thesis by (simp add: x Fin js_gt_def)
  qed (use assms x in \<open>simp_all add: js_gt_def on_grid_def\<close>)
next
  case PInf
  with assms show ?thesis by (cases y) (simp_all add: js_gt_def on_grid_def)
next
  case NInf
  with assms show ?thesis by (cases y) (simp_all add: js_gt_def on_grid_def)
qed (use assms in \<open>simp add: on_grid_def\<close>)

lemma js_lt_asym: "js_lt x y \<Longrightarrow> \<not> js_lt y x"
  by (cases x; cases y) auto

lemma not_js_lt_trans:
  "x \<noteq> NaN \<Longrightarrow> y \<noteq> NaN \<Longrightarrow> z \<noteq> NaN \<Longrightarrow> \<not> js_lt y x \<Longrightarrow> \<not> js_lt z y \<Longrightarrow> \<not> js_lt z x"
  by (cases x; cases y; cases z) auto

lemma may_precede_keep:
  assumes "entry_ok x" and "entry_ok y" and "\<not> js_gt (compare_emission x y) (Fin 0)"
  shows "may_precede x y"
  using assms sub_pos_iff [of "the (emission x)" "the (emission y)"]
  by (auto simp: may_precede_def compare_emission_def entry_ok_def js_gt_def
           split: option.splits if_splits)

lemma may_precede_swap:
  assumes "entry_ok x" and "entry_ok y" and "js_gt (compare_emission x y) (Fin 0)"
  shows "may_precede y x"
  using assms sub_pos_iff [of "the (emission x)" "the (emission y)"]
  by (auto simp: may_precede_def compare_emission_def entry_ok_def js_gt_def
           dest: js_lt_asym split: option.splits if_splits)

lemma may_precede_trans:
  assumes "entry_ok x" and "entry_ok y" and "entry_ok z"
    and "may_precede x y" and "may_precede y z"
  shows "may_precede x z"
  using assms
  by (auto simp: may_precede_def entry_ok_def on_grid_def
           dest: not_js_lt_trans split: option.splits)

lemma set_sort_insert: "set (sort_insert cmp x ys) = insert x (set ys)"
  using mset_sort_insert [of cmp x ys] by (metis set_mset_mset set_mset_add_mset_insert)

lemma sorted_sort_insert:
  assumes "entry_ok x" and "\<forall>y \<in> set ys. entry_ok y" and "sorted_wrt may_precede ys"
  shows "sorted_wrt may_precede (sort_insert compare_emission x ys)"
  using assms(2,3)
proof (induction ys)
  case Nil
  then show ?case by simp
next
  case (Cons y ys)
  show ?case
  proof (cases "js_gt (compare_emission x y) (Fin 0)")
    case True
    have "may_precede y x" by (rule may_precede_swap [OF assms(1) _ True]) (use Cons.prems in simp)
    with Cons True show ?thesis by (auto simp: set_sort_insert)
  next
    case False
    have xy: "may_precede x y" by (rule may_precede_keep [OF assms(1) _ False]) (use Cons.prems in simp)
    have "may_precede x z" if "z \<in> set ys" for z
    proof (rule may_precede_trans [OF assms(1) _ _ xy])
      show "entry_ok y" "entry_ok z" using Cons.prems that by simp_all
      show "may_precede y z" using Cons.prems that by simp
    qed
    with xy False Cons.prems show ?thesis by simp
  qed
qed

lemma sorted_Array_sort:
  assumes "\<forall>y \<in> set xs. entry_ok y"
  shows "sorted_wrt may_precede (Array_sort compare_emission xs)"
  using assms
proof (induction xs)
  case Nil
  then show ?case by (simp add: Array_sort_def)
next
  case (Cons x xs)
  have "sorted_wrt may_precede
          (sort_insert compare_emission x (Array_sort compare_emission xs))"
  proof (rule sorted_sort_insert)
    show "entry_ok x" using Cons.prems by simp
    show "\<forall>y \<in> set (Array_sort compare_emission xs). entry_ok y"
      using Cons.prems by (simp add: set_Array_sort)
    show "sorted_wrt may_precede (Array_sort compare_emission xs)"
      using Cons by simp
  qed
  then show ?case by (simp add: Array_sort_def)
qed

lemma calculateEmission_key:
  assumes "EMISSION_FACTORS cfg = Some factors" and "map_of factors m = Some f"
  shows "calculateEmission cfg d m =
           (if d = NaN \<or> js_lt d (Fin 0) then None else Some (round' (js_mul d f) 2))"
  using assms by (simp add: calculateEmission_def get_prop_def Number_isNaN_def Let_def)

lemma calculateAllModes_unfold:
  assumes "EMISSION_FACTORS cfg = Some factors"
  shows "calculateAllModes cfg d =
     Array_sort compare_emission
       (map (push_entry cfg d (if str ''car'' \<in> set (Object_keys factors)
                               then calculateEmission cfg d (str ''car'') else None))
            (Object_keys factors))"
  using assms by (simp add: calculateAllModes_def Let_def)

lemma mode_push_entry: "mode (push_entry cfg d c m) = m"
  by (simp add: push_entry_def Let_def)

lemma emission_push_entry: "emission (push_entry cfg d c m) = calculateEmission cfg d m"
  by (simp add: push_entry_def Let_def)

lemma modes_calculateAllModes:
  assumes "EMISSION_FACTORS cfg = Some factors"
  shows "mset (map mode (calculateAllModes cfg d)) = mset (Object_keys factors)"
proof -
  have "mset (map mode (calculateAllModes cfg d))
          = image_mset mode (mset (calculateAllModes cfg d))" by simp
  also have "\<dots> = mset (map mode (map (push_entry cfg d
        (if str ''car'' \<in> set (Object_keys factors)
         then calculateEmission cfg d (str ''car'') else None)) (Object_keys factors)))"
    by (simp only: calculateAllModes_unfold [OF assms] mset_Array_sort mset_map)
  also have "\<dots> = mset (Object_keys factors)"
    by (simp add: mode_push_entry comp_def)
  finally show ?thesis .
qed

lemma entry_calculateAllModes:
  assumes "EMISSION_FACTORS cfg = Some factors" and "e \<in> set (calculateAllModes cfg d)"
  shows "e = push_entry cfg d (if str ''car'' \<in> set (Object_keys factors)
                               then calculateEmission cfg d (str ''car'') else None) (mode e)
         \<and> mode e \<in> set (Object_keys factors)"
  using assms(2) unfolding calculateAllModes_unfold [OF assms(1)] set_Array_sort
  by (auto simp: mode_push_entry)

lemma null_entries_calculateAllModes:
  assumes "EMISSION_FACTORS cfg = Some factors"
  shows "map mode (filter (\<lambda>e. emission e = None) (calculateAllModes cfg d))
           = filter (\<lambda>m. calculateEmission cfg d m = None) (Object_keys factors)"
  unfolding calculateAllModes_unfold [OF assms] filter_null_Array_sort
  by (simp add: filter_map comp_def emission_push_entry mode_push_entry)

lemma on_grid_rd: "on_grid (rd q)"
  using rd_grid [of q] by (simp add: on_grid_def rd_not_NaN)

lemma round'_on_grid:
  assumes "nonneg x"
  shows "on_grid (round' x 2)"
proof -
  have le: "js_le x x" using assms by (cases x) auto
  note s1 = add_eps_step [OF assms le]
  note s2 = mul_100_step [OF s1 [THEN conjunct2] s1 [THEN conjunct1]]
  note s3 = Math_round_step [OF s2 [THEN conjunct2] s2 [THEN conjunct1]]
  from s3 have "nonneg (Math_round (js_mul (js_add x (Fin (1 / 2 ^ 52))) (Fin 100)))" ..
  then have "on_grid (js_div (Math_round (js_mul (js_add x (Fin (1 / 2 ^ 52))) (Fin 100))) (Fin 100))"
  proof (cases rule: nonneg_cases)
    case 1
    then show ?thesis by (simp add: on_grid_def)
  next
    case (2 v)
    then show ?thesis by (simp add: on_grid_rd)
  qed
  then show ?thesis by (simp only: round'_2)
qed

lemma table_factors:
  "map_of EMISSION_FACTORS_table m = Some f \<Longrightarrow> \<exists>v. f = Fin v \<and> 0 \<le> v"
  by (auto simp: EMISSION_FACTORS_table_def rd_eval split: if_splits)

lemma CONFIG_factors: "EMISSION_FACTORS CONFIG = Some EMISSION_FACTORS_table"
  by (simp add: CONFIG_def)

lemma table_keys:
  "Object_keys EMISSION_FACTORS_table = [str ''bicycle'', str ''car'', str ''bus'', str ''boat'']"
  by (simp add: Object_keys_def EMISSION_FACTORS_table_def)

lemma table_key_factor:
  "m \<in> set (Object_keys EMISSION_FACTORS_table) \<Longrightarrow> \<exists>f. map_of EMISSION_FACTORS_table m = Some f"
  by (simp add: Object_keys_def) (metis map_of_eq_None_iff not_Some_eq)

text \<open>The emission of a mode of the table for a distance that is finite and not negative.\<close>

lemma table_emission:
  assumes "m \<in> set (Object_keys EMISSION_FACTORS_table)" and "0 \<le> q"
  shows "\<exists>v. calculateEmission CONFIG (Fin q) m = Some v \<and> nonneg v \<and> on_grid v"
proof -
  from table_key_factor [OF assms(1)] obtain f where f: "map_of EMISSION_FACTORS_table m = Some f"
    by blast
  from table_factors [OF f] obtain v where v: "f = Fin v" "0 \<le> v" by blast
  have nn: "nonneg (rd (q * v))" by (rule rd_nonneg) (use assms(2) v(2) in simp)
  have "calculateEmission CONFIG (Fin q) m = Some (round' (rd (q * v)) 2)"
    using assms(2) by (simp add: calculateEmission_key [OF CONFIG_factors f] v(1))
  with round'_nonneg [OF nn] round'_on_grid [OF nn] show ?thesis by simp
qed

lemma entries_ok:
  assumes "d \<noteq> PInf" and "e \<in> set (calculateAllModes CONFIG d)"
  shows "entry_ok e"
proof -
  from entry_calculateAllModes [OF CONFIG_factors assms(2)]
  have em: "emission e = calculateEmission CONFIG d (mode e)"
    and key: "mode e \<in> set (Object_keys EMISSION_FACTORS_table)"
    by (metis emission_push_entry, simp)
  from table_key_factor [OF key] obtain f where f: "map_of EMISSION_FACTORS_table (mode e) = Some f"
    by blast
  show ?thesis
  proof (cases "d = NaN \<or> js_lt d (Fin 0)")
    case True
    then show ?thesis by (simp add: entry_ok_def em calculateEmission_key [OF CONFIG_factors f])
  next
    case False
    with assms(1) obtain q where q: "d = Fin q" "0 \<le> q" by (cases d) auto
    from table_emission [OF key q(2)] show ?thesis by (auto simp: entry_ok_def em q(1))
  qed
qed

lemma calculateAllModes_PInf:
  "calculateAllModes CONFIG PInf =
  [\<lparr>mode = str ''bicycle'', emission = Some NaN, percentageVsCar = Some NaN\<rparr>,
   \<lparr>mode = str ''car'', emission = Some PInf, percentageVsCar = Some NaN\<rparr>,
   \<lparr>mode = str ''bus'', emission = Some PInf, percentageVsCar = Some NaN\<rparr>,
   \<lparr>mode = str ''boat'', emission = Some PInf, percentageVsCar = Some NaN\<rparr>]"
  by (simp add: rd_eval calc_eval modes_eval)

lemma sorted_calculateAllModes: "sorted_wrt may_precede (calculateAllModes CONFIG d)"
proof (cases "d = PInf")
  case True
  then show ?thesis by (simp add: calculateAllModes_PInf may_precede_def)
next
  case False
  then have "\<forall>e \<in> set (calculateAllModes CONFIG d). entry_ok e" by (simp add: entries_ok)
  then have "\<forall>e \<in> set (map (push_entry CONFIG d (if str ''car'' \<in> set (Object_keys EMISSION_FACTORS_table)
                               then calculateEmission CONFIG d (str ''car'') else None))
            (Object_keys EMISSION_FACTORS_table)). entry_ok e"
    by (simp only: calculateAllModes_unfold [OF CONFIG_factors] set_Array_sort)
  then show ?thesis
    unfolding calculateAllModes_unfold [OF CONFIG_factors] by (rule sorted_Array_sort)
qed

lemma round'_zero: "round' (Fin 0) 2 = Fin 0"
  by (simp add: round'_2 rd_eval)

lemma bicycle_emission:
  "0 \<le> q \<Longrightarrow> calculateEmission CONFIG (Fin q) (str ''bicycle'') = Some (Fin 0)"
proof -
  assume q: "0 \<le> q"
  have f: "map_of EMISSION_FACTORS_table (str ''bicycle'') = Some (Fin 0)"
    by (simp add: EMISSION_FACTORS_table_def)
  have "rd 0 = Fin 0" by (simp add: rd_eval)
  with q show ?thesis
    by (simp add: calculateEmission_key [OF CONFIG_factors f] round'_zero)
qed

lemma bicycle_first:
  assumes "0 \<le> q"
  shows "\<exists>rest. calculateAllModes CONFIG (Fin q)
           = push_entry CONFIG (Fin q) (calculateEmission CONFIG (Fin q) (str ''car''))
               (str ''bicycle'') # rest"
proof -
  define c where "c = calculateEmission CONFIG (Fin q) (str ''car'')"
  define b where "b = push_entry CONFIG (Fin q) c (str ''bicycle'')"
  define others where "others = map (push_entry CONFIG (Fin q) c) [str ''car'', str ''bus'', str ''boat'']"
  have car: "str ''car'' \<in> set (Object_keys EMISSION_FACTORS_table)"
    by (simp add: table_keys)
  have "calculateAllModes CONFIG (Fin q)
          = Array_sort compare_emission
              (map (push_entry CONFIG (Fin q) c) (Object_keys EMISSION_FACTORS_table))"
    by (simp only: calculateAllModes_unfold [OF CONFIG_factors] car if_True c_def)
  then have all: "calculateAllModes CONFIG (Fin q) = Array_sort compare_emission (b # others)"
    by (simp only: table_keys list.map b_def others_def)
  have b: "emission b = Some (Fin 0)"
    by (simp add: b_def emission_push_entry bicycle_emission [OF assms])
  have "\<not> js_gt (compare_emission b y) (Fin 0)" if "y \<in> set (Array_sort compare_emission others)" for y
  proof -
    from that obtain m where y: "y = push_entry CONFIG (Fin q) c m"
      and m: "m \<in> set (Object_keys EMISSION_FACTORS_table)"
      by (auto simp: set_Array_sort others_def table_keys)
    from table_emission [OF m assms] obtain v where v: "emission y = Some v" "nonneg v"
      by (auto simp: y emission_push_entry)
    from v(2) show ?thesis
    proof (cases rule: nonneg_cases)
      case 1
      then show ?thesis by (simp add: compare_emission_def b v(1) js_gt_def)
    next
      case (2 w)
      then have "\<not> js_lt (Fin 0) (rd (0 - w))" by (intro rd_nonpos) simp
      with 2 show ?thesis by (simp add: compare_emission_def b v(1) js_gt_def)
    qed
  qed
  then have "sort_insert compare_emission b (Array_sort compare_emission others)
               = b # Array_sort compare_emission others"
    by (intro sort_insert_first) blast
  then have "calculateAllModes CONFIG (Fin q) = b # Array_sort compare_emission others"
    by (simp add: all Array_sort_def)
  then show ?thesis unfolding b_def c_def by blast
qed

section \<open>The price estimate\<close>

text \<open>
  C1, as the specification states it: the average of the estimate is
  \<open>round((min + max) / 2, 2)\<close> taken from the rounded \<open>min\<close> and \<open>max\<close>. The code averages
  the unrounded products. For \<open>0.00004\<close> credits the products are \<open>0.002\<close> and \<open>0.006\<close>;
  the code returns the average \<open>round(0.004) = 0\<close>, the specification's order gives
  \<open>round((0 + 0.01) / 2) = 0.01\<close>.
\<close>

theorem estimateCreditPrice_not_round_then_average:
  "estimateCreditPrice CONFIG (lit 0.00004)
     = Some \<lparr>min_price = Fin 0, max_price = lit 0.01, average = Fin 0\<rparr>
   \<and> estimatePrice_spec CONFIG (lit 0.00004)
     = Some \<lparr>min_price = Fin 0, max_price = lit 0.01, average = lit 0.01\<rparr>
   \<and> lit 0.01 \<noteq> Fin 0"
  by (simp add: rd_eval calc_eval)

text \<open>
  C1, amended: for every credits value that is a number and not negative, the estimate
  has \<open>min = round(c \<times> priceMin, 2)\<close>, \<open>max = round(c \<times> priceMax, 2)\<close> and
  \<open>average = round((c \<times> priceMin + c \<times> priceMax) / 2, 2)\<close>: the average of the
  unrounded products, rounded once.
\<close>

theorem estimateCreditPrice_average_then_round:
  assumes "CARBON_CREDIT cfg = Some policy" and "c \<noteq> NaN" and "\<not> js_lt c (Fin 0)"
  shows "estimateCreditPrice cfg c =
    Some \<lparr>min_price = round' (js_mul c (PRICE_MIN_BRL policy)) 2,
          max_price = round' (js_mul c (PRICE_MAX_BRL policy)) 2,
          average = round' (js_div (js_add (js_mul c (PRICE_MIN_BRL policy))
                                           (js_mul c (PRICE_MAX_BRL policy))) (Fin 2)) 2\<rparr>"
  using assms by (simp add: estimateCreditPrice_def Number_isNaN_def Let_def)

theorem estimateCreditPrice_average_then_round_witness:
  "CARBON_CREDIT CONFIG = Some CARBON_CREDIT_policy \<and> Fin 1 \<noteq> NaN \<and> \<not> js_lt (Fin 1) (Fin 0)
   \<and> estimateCreditPrice CONFIG (Fin 1)
       = Some \<lparr>min_price = Fin 50, max_price = Fin 150, average = Fin 100\<rparr>"
  using estimateCreditPrice_average_then_round [of CONFIG CARBON_CREDIT_policy "Fin 1"]
  by (simp add: rd_eval calc_eval)

text \<open>
  C9: whenever the estimate is not \<open>null\<close>, under a policy with
  \<open>0 < priceMin \<le> priceMax\<close> (the configured one has 50 and 150), its values satisfy
  \<open>min \<le> average \<le> max\<close>. The rounding to binary64 and the rounding to two decimals are
  both monotone; where the sum of the two products overflows, the maximum rounds to
  \<open>Infinity\<close> as well.
\<close>

theorem estimateCreditPrice_ordered:
  assumes cfg: "CARBON_CREDIT cfg = Some policy"
    and a: "PRICE_MIN_BRL policy = Fin a" and b: "PRICE_MAX_BRL policy = Fin b"
    and ab: "0 < a" "a \<le> b"
    and r: "estimateCreditPrice cfg c = Some r"
  shows "js_le (min_price r) (average r) \<and> js_le (average r) (max_price r)"
proof -
  from r cfg have c: "nonneg c"
    by (auto simp: estimateCreditPrice_def Number_isNaN_def nonneg_iff Let_def split: if_splits)
  from r cfg c have r_eq: "r = \<lparr>min_price = round' (js_mul c (Fin a)) 2,
      max_price = round' (js_mul c (Fin b)) 2,
      average = round' (js_div (js_add (js_mul c (Fin a)) (js_mul c (Fin b))) (Fin 2)) 2\<rparr>"
    by (auto simp: estimateCreditPrice_def Number_isNaN_def nonneg_iff Let_def a b split: if_splits)
  from c show ?thesis
  proof (cases rule: nonneg_cases)
    case 1
    with ab show ?thesis by (simp add: r_eq round'_PInf)
  next
    case (2 q)
    have p: "0 \<le> q * a" and pp: "q * a \<le> q * b"
      using 2(2) ab by (simp_all add: mult_left_mono)
    have "nonneg (rd (q * a))" by (rule rd_nonneg [OF p])
    with average_bounds(1) [OF p pp]
    have "js_le (round' (rd (q * a)) 2) (round' (js_div (js_add (rd (q * a)) (rd (q * b))) (Fin 2)) 2)"
      by (intro round'_mono(1))
    with average_bounds(2) [OF p pp] show ?thesis
      by (simp only: r_eq 2(1) js_mul.simps price_estimate.simps simp_thms)
  qed
qed

theorem estimateCreditPrice_ordered_witness:
  "CARBON_CREDIT CONFIG = Some CARBON_CREDIT_policy
   \<and> PRICE_MIN_BRL CARBON_CREDIT_policy = Fin 50 \<and> PRICE_MAX_BRL CARBON_CREDIT_policy = Fin 150
   \<and> (0::rat) < 50 \<and> (50::rat) \<le> 150
   \<and> estimateCreditPrice CONFIG (Fin 1)
       = Some \<lparr>min_price = Fin 50, max_price = Fin 150, average = Fin 100\<rparr>
   \<and> js_le (Fin 50) (Fin 100) \<and> js_le (Fin 100) (Fin 150)"
  using estimateCreditPrice_ordered [of CONFIG CARBON_CREDIT_policy 50 150 "Fin 1"
      "\<lparr>min_price = Fin 50, max_price = Fin 150, average = Fin 100\<rparr>"]
  by (simp add: rd_eval calc_eval)

section \<open>The emission of one mode\<close>

text \<open>
  C2, as the specification states it: \<open>computeEmission(Infinity, mode)\<close> is Invalid for
  every mode. The code tests the distance for \<open>NaN\<close> and for a negative value only, and an
  infinite distance goes through: for the car the result is \<open>Infinity\<close>, not \<open>null\<close>.
\<close>

theorem calculateEmission_infinite_distance:
  "calculateEmission CONFIG PInf (str ''car'') = Some PInf"
  by (simp add: rd_eval calc_eval)

text \<open>
  C2, amended: for a mode string that is not the name of a property inherited from
  \<open>Object.prototype\<close>, the result is \<open>null\<close> if and only if the distance is \<open>NaN\<close> or
  negative or the mode is not a key of the factor table; for a key of the table and any
  other distance (an infinite one too) the result is \<open>round(distance \<times> factor, 2)\<close>.
\<close>

theorem calculateEmission_null_iff:
  assumes "EMISSION_FACTORS cfg = Some factors" and "m \<notin> set Object_prototype_names"
  shows "(calculateEmission cfg d m = None
            \<longleftrightarrow> d = NaN \<or> js_lt d (Fin 0) \<or> m \<notin> set (Object_keys factors))
       \<and> (\<forall>f. d \<noteq> NaN \<and> \<not> js_lt d (Fin 0) \<and> map_of factors m = Some f
             \<longrightarrow> calculateEmission cfg d m = Some (round' (js_mul d f) 2))"
proof -
  have keys: "m \<notin> set (Object_keys factors) \<longleftrightarrow> map_of factors m = None"
    by (simp add: Object_keys_def map_of_eq_None_iff)
  show ?thesis
    using assms
    by (auto simp: keys calculateEmission_def get_prop_def Number_isNaN_def Let_def
             split: option.splits)
qed

theorem calculateEmission_null_iff_witness:
  "EMISSION_FACTORS CONFIG = Some EMISSION_FACTORS_table
   \<and> str ''train'' \<notin> set Object_prototype_names
   \<and> calculateEmission CONFIG (Fin 430) (str ''train'') = None
   \<and> str ''train'' \<notin> set (Object_keys EMISSION_FACTORS_table)"
  using calculateEmission_null_iff [of CONFIG EMISSION_FACTORS_table "str ''train''" "Fin 430"]
  by (simp add: calc_eval Object_keys_def)

text \<open>
  The names left out above: \<open>"toString"\<close> is not a key of the table, yet the read
  \<open>CONFIG.EMISSION_FACTORS["toString"]\<close> finds the inherited function, which is neither
  \<open>undefined\<close> nor \<open>null\<close>, and the result is \<open>NaN\<close> instead of \<open>null\<close>.
\<close>

lemma calculateEmission_inherited_name:
  "str ''toString'' \<notin> set (Object_keys EMISSION_FACTORS_table)
   \<and> calculateEmission CONFIG (Fin 10) (str ''toString'') = Some NaN"
  by (simp add: rd_eval calc_eval Object_keys_def)

section \<open>The concrete scenario\<close>

text \<open>
  C3: with the configured tables, \<open>computeEmission(430, "car") = 51.60\<close>; the savings of
  \<open>51.60\<close> against itself have \<open>savedKg = 0\<close>; \<open>computeCredits(51.60) = 0.0516\<close>; and
  \<open>estimatePrice(0.0516)\<close> has \<open>min = 2.58\<close>, \<open>max = 7.74\<close> and \<open>average = 5.16\<close>. Each
  decimal stands for the binary64 value nearest to it, as in the program.
\<close>

theorem scenario_430_km_by_car:
  "calculateEmission CONFIG (Fin 430) (str ''car'') = Some (lit 51.60)
   \<and> calculateSavings (lit 51.60) (lit 51.60)
       = Some \<lparr>savedKg = Fin 0, percentage = Some (Fin 0)\<rparr>
   \<and> calculateCarbonCredits CONFIG (lit 51.60) = Some (lit 0.0516)
   \<and> estimateCreditPrice CONFIG (lit 0.0516)
       = Some \<lparr>min_price = lit 2.58, max_price = lit 7.74, average = lit 5.16\<rparr>"
  by (simp add: rd_eval calc_eval)

section \<open>The savings\<close>

text \<open>
  C7, as the specification states it: the result is Invalid when an input is not finite.
  The code tests for \<open>NaN\<close> only: with an infinite emission and the baseline 5 it returns
  the record \<open>{ savedKg: -Infinity, percentage: -Infinity }\<close>.
\<close>

theorem calculateSavings_infinite_emission:
  "calculateSavings PInf (Fin 5) = Some \<lparr>savedKg = NInf, percentage = Some NInf\<rparr>"
  by (simp add: rd_eval calc_eval)

text \<open>
  C7, amended: the result is \<open>null\<close> exactly when an input is \<open>NaN\<close>. Otherwise
  \<open>savedKg = round(baseline - emission, 2)\<close>, and \<open>percentage\<close> is
  \<open>round(savedKg / baseline \<times> 100, 2)\<close> when \<open>baseline > 0\<close> and \<open>null\<close> otherwise. The saving
  may be negative: the emission 10 against the baseline 4 saves \<open>-6\<close>, that is \<open>-150\<close> percent.
\<close>

theorem calculateSavings_result:
  "calculateSavings e b =
     (if e = NaN \<or> b = NaN then None
      else Some \<lparr>savedKg = round' (js_sub b e) 2,
                 percentage =
                   (if js_lt (Fin 0) b
                    then Some (round' (js_mul (js_div (round' (js_sub b e) 2) b) (Fin 100)) 2)
                    else None)\<rparr>)
   \<and> calculateSavings (Fin 10) (Fin 4)
       = Some \<lparr>savedKg = Fin (- 6), percentage = Some (Fin (- 150))\<rparr>"
proof
  show "calculateSavings e b =
     (if e = NaN \<or> b = NaN then None
      else Some \<lparr>savedKg = round' (js_sub b e) 2,
                 percentage =
                   (if js_lt (Fin 0) b
                    then Some (round' (js_mul (js_div (round' (js_sub b e) 2) b) (Fin 100)) 2)
                    else None)\<rparr>)"
    by (simp add: calculateSavings_def Number_isNaN_def js_gt_def Let_def)
  show "calculateSavings (Fin 10) (Fin 4)
       = Some \<lparr>savedKg = Fin (- 6), percentage = Some (Fin (- 150))\<rparr>"
    by (simp add: rd_eval calc_eval)
qed

theorem calculateSavings_result_witness:
  "calculateSavings NaN (Fin 1) = None
   \<and> calculateSavings (Fin 0) (Fin 0) = Some \<lparr>savedKg = Fin 0, percentage = None\<rparr>"
  using calculateSavings_result [of NaN "Fin 1"] calculateSavings_result [of "Fin 0" "Fin 0"]
  by (simp add: rd_eval calc_eval)

section \<open>The distance lookup\<close>

lemma scan_symmetric: "scan nrm table a b = scan nrm table b a"
  by (induction table) (auto simp: Let_def)

lemma scan_found:
  "no_clash (normalized nrm table) \<Longrightarrow> r \<in> set table
     \<Longrightarrow> scan nrm table (nrm (origin r)) (nrm (destination r)) = Some (distanceKm r)"
proof (induction table)
  case Nil
  then show ?case by simp
next
  case (Cons h rest)
  show ?case
  proof (cases "r = h")
    case True
    then show ?thesis by (simp add: Let_def)
  next
    case False
    with Cons.prems have r: "r \<in> set rest" by simp
    from Cons.prems have nc: "no_clash (normalized nrm rest)"
      and all: "list_all (\<lambda>(a', b', k'). (nrm (origin h) = a' \<and> nrm (destination h) = b')
                    \<or> (nrm (origin h) = b' \<and> nrm (destination h) = a') \<longrightarrow> distanceKm h = k')
                  (normalized nrm rest)"
      by (simp_all add: normalized_def)
    from all r have same: "(nrm (origin h) = nrm (origin r) \<and> nrm (destination h) = nrm (destination r))
        \<or> (nrm (origin h) = nrm (destination r) \<and> nrm (destination h) = nrm (origin r))
        \<Longrightarrow> distanceKm h = distanceKm r"
      by (auto simp: normalized_def list_all_iff)
    from Cons.IH [OF nc r] same show ?thesis
      by (auto simp: Let_def)
  qed
qed

lemmas string_eval = str_def trim_def toLowerCase_def lower_unit_def is_space_def

lemma routes_no_clash: "no_clash (normalized (\<lambda>s. toLowerCase (trim s)) routes)"
  by (simp add: normalized_def routes_def string_eval)

lemma routes_nonempty: "\<forall>r \<in> set routes. origin r \<noteq> [] \<and> destination r \<noteq> []"
  by (simp add: routes_def str_def)

text \<open>
  C4: for every record \<open>(A, B, d)\<close> of the route table as shipped, \<open>findDistance(A, B)\<close>
  and \<open>findDistance(B, A)\<close> both return \<open>d\<close>.
\<close>

theorem findDistance_route_table:
  "\<forall>r \<in> set routes. findDistance (origin r) (destination r) = Some (distanceKm r)
    \<and> findDistance (destination r) (origin r) = Some (distanceKm r)"
proof
  fix r assume r: "r \<in> set routes"
  with routes_nonempty have ne: "origin r \<noteq> []" "destination r \<noteq> []" by auto
  from scan_found [OF routes_no_clash r]
  have "scan (\<lambda>s. toLowerCase (trim s)) routes (toLowerCase (trim (origin r)))
          (toLowerCase (trim (destination r))) = Some (distanceKm r)" .
  with ne show "findDistance (origin r) (destination r) = Some (distanceKm r)
    \<and> findDistance (destination r) (origin r) = Some (distanceKm r)"
    by (simp add: findDistance_def findDistance_by_def Let_def
          scan_symmetric [of _ _ "toLowerCase (trim (destination r))"])
qed

theorem findDistance_route_table_witness:
  "Route (str ''Curitiba, PR'') (str ''Porto Alegre, RS'') (Fin 710) \<in> set routes
   \<and> findDistance (str ''Curitiba, PR'') (str ''Porto Alegre, RS'') = Some (Fin 710)
   \<and> findDistance (str ''Porto Alegre, RS'') (str ''Curitiba, PR'') = Some (Fin 710)"
proof -
  have r: "Route (str ''Curitiba, PR'') (str ''Porto Alegre, RS'') (Fin 710) \<in> set routes"
    by (simp add: routes_def)
  from findDistance_route_table [THEN bspec, OF r] r show ?thesis by simp
qed

text \<open>
  C8: the lookup gives the same result for \<open>(a, b)\<close> and for \<open>(b, a)\<close>, for all strings
  and not only for the pairs of the table. It holds for \<open>findDistance\<close> and for the scan
  over any table with any normalisation of the strings.
\<close>

theorem findDistance_commutes:
  "findDistance a b = findDistance b a
   \<and> findDistance_by nrm table a b = findDistance_by nrm table b a"
  by (auto simp: findDistance_def findDistance_by_def Let_def scan_symmetric)

section \<open>The comparison of all modes\<close>

lemma calculateAllModes_430:
  "calculateAllModes CONFIG (Fin 430) =
  [\<lparr>mode = str ''bicycle'', emission = Some (Fin 0), percentageVsCar = Some (Fin 0)\<rparr>,
   \<lparr>mode = str ''bus'', emission = Some (lit 38.27), percentageVsCar = Some (lit 74.17)\<rparr>,
   \<lparr>mode = str ''car'', emission = Some (lit 51.6), percentageVsCar = Some (Fin 100)\<rparr>,
   \<lparr>mode = str ''boat'', emission = Some (lit 412.8), percentageVsCar = Some (Fin 800)\<rparr>]"
  by (simp add: rd_eval calc_eval modes_eval)

text \<open>
  C5: for every distance the result has exactly one entry per key of the factor table
  (the modes of the result are a permutation of the keys, which are distinct), each with
  the emission of its mode; the list ascends by emission, no entry being followed by one
  of a smaller emission, with the \<open>null\<close> emissions behind all numbers; the entries of a
  \<open>null\<close> emission keep the order of the table; and for a finite distance above zero
  the first entry is the bicycle's. For an infinite distance the bicycle's emission is
  \<open>NaN\<close>, which is neither smaller nor greater than the other emissions, all
  \<open>Infinity\<close>. In both cases the comparator is consistent on the entries it is given:
  on numbers of the binary64 grid the sign of the difference is the order, and among
  \<open>NaN\<close> and \<open>Infinity\<close> every difference is \<open>NaN\<close>.
\<close>

theorem calculateAllModes_ranking:
  "mset (map mode (calculateAllModes CONFIG d)) = mset (Object_keys EMISSION_FACTORS_table)
   \<and> distinct (Object_keys EMISSION_FACTORS_table)
   \<and> (\<forall>e \<in> set (calculateAllModes CONFIG d). emission e = calculateEmission CONFIG d (mode e))
   \<and> sorted_wrt may_precede (calculateAllModes CONFIG d)
   \<and> map mode (filter (\<lambda>e. emission e = None) (calculateAllModes CONFIG d))
       = filter (\<lambda>m. calculateEmission CONFIG d m = None) (Object_keys EMISSION_FACTORS_table)
   \<and> (\<forall>q. d = Fin q \<and> 0 < q \<longrightarrow> mode (hd (calculateAllModes CONFIG d)) = str ''bicycle'')"
proof (intro conjI allI impI ballI)
  show "mset (map mode (calculateAllModes CONFIG d)) = mset (Object_keys EMISSION_FACTORS_table)"
    by (rule modes_calculateAllModes [OF CONFIG_factors])
  show "distinct (Object_keys EMISSION_FACTORS_table)"
    by (simp add: table_keys str_def)
  show "emission e = calculateEmission CONFIG d (mode e)"
    if "e \<in> set (calculateAllModes CONFIG d)" for e
    using entry_calculateAllModes [OF CONFIG_factors that] by (metis emission_push_entry)
  show "sorted_wrt may_precede (calculateAllModes CONFIG d)"
    by (rule sorted_calculateAllModes)
  show "map mode (filter (\<lambda>e. emission e = None) (calculateAllModes CONFIG d))
       = filter (\<lambda>m. calculateEmission CONFIG d m = None) (Object_keys EMISSION_FACTORS_table)"
    by (rule null_entries_calculateAllModes [OF CONFIG_factors])
  show "mode (hd (calculateAllModes CONFIG d)) = str ''bicycle''" if "d = Fin q \<and> 0 < q" for q
  proof -
    from that have "0 \<le> q" by simp
    from bicycle_first [OF this] that show ?thesis by (auto simp: mode_push_entry)
  qed
qed

theorem calculateAllModes_ranking_witness:
  "(0::rat) < 430
   \<and> mode (hd (calculateAllModes CONFIG (Fin 430))) = str ''bicycle''
   \<and> map mode (calculateAllModes CONFIG (Fin 430))
       = [str ''bicycle'', str ''bus'', str ''car'', str ''boat'']"
proof -
  from calculateAllModes_ranking [of "Fin 430"]
  have "\<forall>q. Fin 430 = Fin q \<and> 0 < q
          \<longrightarrow> mode (hd (calculateAllModes CONFIG (Fin 430))) = str ''bicycle''"
    by (elim conjE)
  then have "mode (hd (calculateAllModes CONFIG (Fin 430))) = str ''bicycle''" by simp
  then show ?thesis by (simp add: calculateAllModes_430)
qed

text \<open>
  C6, as the specification states it: \<open>percentageVsCar\<close> is \<open>null\<close> whenever the reference
  emission is not finite. The code tests \<open>carEmission > 0\<close>, which \<open>Infinity\<close> passes: for
  an infinite distance the car's emission is \<open>Infinity\<close> and the car's own entry has the
  percentage \<open>NaN\<close>, not \<open>null\<close>.
\<close>

theorem percentageVsCar_infinite_reference:
  "calculateEmission CONFIG PInf (str ''car'') = Some PInf
   \<and> \<lparr>mode = str ''car'', emission = Some PInf, percentageVsCar = Some NaN\<rparr>
       \<in> set (calculateAllModes CONFIG PInf)"
  by (simp add: calculateAllModes_PInf) (simp add: rd_eval calc_eval)

text \<open>
  C6, amended: in every entry, \<open>percentageVsCar\<close> is
  \<open>round((emission / referenceEmission) \<times> 100, 2)\<close> exactly when \<open>"car"\<close> is a key of the
  table, the reference emission computed for it is a number greater than zero (\<open>Infinity\<close>
  included) and the entry's own emission is not \<open>null\<close>; in every other case it is \<open>null\<close>.
\<close>

theorem percentageVsCar_rule:
  assumes "EMISSION_FACTORS cfg = Some factors" and "e \<in> set (calculateAllModes cfg d)"
  shows "emission e = calculateEmission cfg d (mode e)
       \<and> percentageVsCar e =
           (case (emission e,
                  if str ''car'' \<in> set (Object_keys factors)
                  then calculateEmission cfg d (str ''car'') else None) of
              (Some x, Some c) \<Rightarrow>
                if js_lt (Fin 0) c then Some (round' (js_mul (js_div x c) (Fin 100)) 2) else None
            | _ \<Rightarrow> None)"
proof -
  define c where "c = (if str ''car'' \<in> set (Object_keys factors)
                       then calculateEmission cfg d (str ''car'') else None)"
  from entry_calculateAllModes [OF assms] have e: "e = push_entry cfg d c (mode e)"
    by (simp add: c_def)
  have 1: "emission e = calculateEmission cfg d (mode e)"
    by (subst e) (simp add: emission_push_entry)
  have 2: "percentageVsCar e =
           (case (calculateEmission cfg d (mode e), c) of
              (Some x, Some c) \<Rightarrow>
                if js_lt (Fin 0) c then Some (round' (js_mul (js_div x c) (Fin 100)) 2) else None
            | _ \<Rightarrow> None)"
    by (subst e) (auto simp: push_entry_def Let_def js_gt_def split: option.splits)
  from 1 2 show ?thesis by (simp only: c_def)
qed

theorem percentageVsCar_rule_witness:
  "EMISSION_FACTORS CONFIG = Some EMISSION_FACTORS_table
   \<and> \<lparr>mode = str ''bus'', emission = Some (lit 38.27), percentageVsCar = Some (lit 74.17)\<rparr>
       \<in> set (calculateAllModes CONFIG (Fin 430))
   \<and> calculateEmission CONFIG (Fin 430) (str ''bus'') = Some (lit 38.27)
   \<and> calculateEmission CONFIG (Fin 430) (str ''car'') = Some (lit 51.6)
   \<and> round' (js_mul (js_div (lit 38.27) (lit 51.6)) (Fin 100)) 2 = lit 74.17"
proof -
  have m: "\<lparr>mode = str ''bus'', emission = Some (lit 38.27), percentageVsCar = Some (lit 74.17)\<rparr>
       \<in> set (calculateAllModes CONFIG (Fin 430))"
    by (simp add: calculateAllModes_430)
  have car: "calculateEmission CONFIG (Fin 430) (str ''car'') = Some (lit 51.6)"
    by (simp add: rd_eval calc_eval)
  have pos: "js_lt (Fin 0) (lit 51.6)" by (simp add: rd_eval)
  from percentageVsCar_rule [OF CONFIG_factors m] car pos m show ?thesis
    by (simp add: CONFIG_factors table_keys)
qed

text \<open>
  C10, as the specification states it: for every finite distance above zero the car's
  entry has the percentage 100. For the distance \<open>0.01\<close> the car's emission
  \<open>0.0012\<close> rounds to \<open>0\<close>, the test \<open>carEmission > 0\<close> fails, and the percentage of the
  car's entry is \<open>null\<close>.
\<close>

theorem car_percentage_null_for_short_distance:
  "\<lparr>mode = str ''car'', emission = Some (Fin 0), percentageVsCar = None\<rparr>
     \<in> set (calculateAllModes CONFIG (lit 0.01))"
  by (simp add: rd_eval calc_eval modes_eval)

text \<open>
  C10, amended: for every distance for which the car's emission is a finite number
  greater than zero, the result has an entry for the car, and the car's entry has
  \<open>percentageVsCar\<close> exactly 100.
\<close>

theorem car_percentage_100:
  assumes "calculateEmission CONFIG d (str ''car'') = Some (Fin c)" and "0 < c"
  shows "(\<exists>e \<in> set (calculateAllModes CONFIG d). mode e = str ''car'')
       \<and> (\<forall>e \<in> set (calculateAllModes CONFIG d).
             mode e = str ''car'' \<longrightarrow> percentageVsCar e = Some (Fin 100))"
proof
  have "str ''car'' \<in># mset (map mode (calculateAllModes CONFIG d))"
    by (simp only: modes_calculateAllModes [OF CONFIG_factors] table_keys) simp
  then show "\<exists>e \<in> set (calculateAllModes CONFIG d). mode e = str ''car''" by auto
  have one: "rd 1 = Fin 1" by (simp add: rd_eval)
  have hundred: "rd 100 = Fin 100" by (simp add: rd_eval)
  have r: "round' (Fin 100) 2 = Fin 100" by (simp add: round'_2 rd_eval)
  show "\<forall>e \<in> set (calculateAllModes CONFIG d).
             mode e = str ''car'' \<longrightarrow> percentageVsCar e = Some (Fin 100)"
  proof (intro ballI impI)
    fix e assume e: "e \<in> set (calculateAllModes CONFIG d)" and m: "mode e = str ''car''"
    from entry_calculateAllModes [OF CONFIG_factors e]
    have "e = push_entry CONFIG d (calculateEmission CONFIG d (str ''car'')) (str ''car'')"
      by (simp add: table_keys m)
    then have "percentageVsCar e
        = Some (round' (js_mul (js_div (Fin c) (Fin c)) (Fin 100)) 2)"
      using assms by (simp add: push_entry_def Let_def js_gt_def)
    with assms(2) show "percentageVsCar e = Some (Fin 100)"
      by (simp add: one hundred r)
  qed
qed

theorem car_percentage_100_witness:
  "calculateEmission CONFIG (Fin 430) (str ''car'')
     = Some (Fin (7262054399134925 / 140737488355328))
   \<and> (0::rat) < 7262054399134925 / 140737488355328
   \<and> \<lparr>mode = str ''car'', emission = Some (lit 51.6), percentageVsCar = Some (Fin 100)\<rparr>
       \<in> set (calculateAllModes CONFIG (Fin 430))"
proof -
  have car: "calculateEmission CONFIG (Fin 430) (str ''car'')
     = Some (Fin (7262054399134925 / 140737488355328))"
    by (simp add: rd_eval calc_eval)
  have pos: "(0::rat) < 7262054399134925 / 140737488355328" by simp
  have m: "\<lparr>mode = str ''car'', emission = Some (lit 51.6), percentageVsCar = Some (Fin 100)\<rparr>
       \<in> set (calculateAllModes CONFIG (Fin 430))"
    by (simp add: calculateAllModes_430)
  from car_percentage_100 [OF car pos] car pos m show ?thesis by simp
qed

end
